theory Spec2Isabelle
  imports Complex_Main "HOL-Library.Sublist"
begin

section \<open>Texts and character classes\<close>

text \<open>
  A source text is a \<^typ>\<open>string\<close>: a list of characters with code points 0 to 255.
  That is every text the latin-1 fallback of the readers produces, and the utf-8 texts
  without characters beyond that range. The classes \<open>\w\<close>, \<open>\s\<close> and \<open>\d\<close> are the ones
  Python's \<open>re\<close> module uses for \<open>str\<close> patterns, on these code points: besides the
  ASCII letters, digits and underscore, \<open>\w\<close> has the letters and numeric characters
  of the upper half (such as 0xE9 and 0xB5), and \<open>\s\<close> has 0x1C to 0x1F, 0x85 and 0xA0
  besides the ASCII white space.
\<close>

abbreviation NL :: char where "NL \<equiv> CHR 0x0A"
abbreviation DQ :: char where "DQ \<equiv> CHR 0x22"
abbreviation SQ :: char where "SQ \<equiv> CHR 0x27"
abbreviation BS :: char where "BS \<equiv> CHR 0x5C"

definition is_word :: "char \<Rightarrow> bool" where
  "is_word c = (let n = (of_char c :: nat) in
     (48 \<le> n \<and> n \<le> 57) \<or> (65 \<le> n \<and> n \<le> 90) \<or> n = 95 \<or> (97 \<le> n \<and> n \<le> 122)
     \<or> n = 170 \<or> n = 178 \<or> n = 179 \<or> n = 181 \<or> n = 185 \<or> n = 186
     \<or> (188 \<le> n \<and> n \<le> 190) \<or> (192 \<le> n \<and> n \<le> 214) \<or> (216 \<le> n \<and> n \<le> 246)
     \<or> 248 \<le> n)"

definition is_space :: "char \<Rightarrow> bool" where
  "is_space c = (let n = (of_char c :: nat) in
     (9 \<le> n \<and> n \<le> 13) \<or> (28 \<le> n \<and> n \<le> 32) \<or> n = 133 \<or> n = 160)"

definition is_digit :: "char \<Rightarrow> bool" where
  "is_digit c = (let n = (of_char c :: nat) in 48 \<le> n \<and> n \<le> 57)"

text \<open>The class \<open>[A-Za-z_]\<close>, written out in several patterns of the program.\<close>

definition is_alpha_us :: "char \<Rightarrow> bool" where
  "is_alpha_us c = (let n = (of_char c :: nat) in
     (65 \<le> n \<and> n \<le> 90) \<or> (97 \<le> n \<and> n \<le> 122) \<or> n = 95)"

section \<open>Regular expressions as the \<open>re\<close> module runs them\<close>

text \<open>
  The program is written with regular expressions, so the model has them too: a pattern
  is a term of \<open>rx\<close>, and \<open>rmatch r x\<close> lists the positions at which a match of \<open>r\<close> that
  starts at position \<open>x\<close> can end, in the order in which a backtracking matcher tries
  them. The head of the list is the match \<open>re\<close> reports. A position is the text before
  it, reversed, and the text after it, so that \<open>\b\<close> can look at both neighbours.

  \<open>Star\<close> is the greedy \<open>*\<close>, \<open>StarLazy\<close> is \<open>*?\<close>, \<open>Opt\<close> the greedy \<open>?\<close>, \<open>Bnd\<close> is
  \<open>\b\<close>. An iteration of a star that consumes nothing is not repeated.
\<close>

type_synonym pos = "string \<times> string"

datatype rx =
    Eps
  | Cls "char \<Rightarrow> bool"
  | Bnd
  | Seq rx rx
  | Alt rx rx
  | Opt rx
  | Star rx
  | StarLazy rx

definition boundary :: "pos \<Rightarrow> bool" where
  "boundary x =
     ((case fst x of [] \<Rightarrow> False | p # _ \<Rightarrow> is_word p)
      \<noteq> (case snd x of [] \<Rightarrow> False | n # _ \<Rightarrow> is_word n))"

function rmatch :: "rx \<Rightarrow> pos \<Rightarrow> pos list" where
  "rmatch Eps x = [x]"
| "rmatch (Cls p) (b, []) = []"
| "rmatch (Cls p) (b, c # cs) = (if p c then [(c # b, cs)] else [])"
| "rmatch Bnd x = (if boundary x then [x] else [])"
| "rmatch (Seq r1 r2) x = concat (map (rmatch r2) (rmatch r1 x))"
| "rmatch (Alt r1 r2) x = rmatch r1 x @ rmatch r2 x"
| "rmatch (Opt r) x = rmatch r x @ [x]"
| "rmatch (Star r) x =
     concat (map (\<lambda>y. if length (snd y) < length (snd x) then rmatch (Star r) y else [])
                 (rmatch r x)) @ [x]"
| "rmatch (StarLazy r) x =
     x # concat (map (\<lambda>y. if length (snd y) < length (snd x) then rmatch (StarLazy r) y else [])
                 (rmatch r x))"
  by pat_completeness auto
termination
  by (relation "(\<lambda>(r, x). size r) <*mlex*> measure (\<lambda>(r, x). length (snd x))")
     (auto simp: wf_mlex mlex_less mlex_leq)

text \<open>
  The two star equations call \<open>rmatch\<close> on the same pattern under a binder, so they are
  not rewrite rules by default.
\<close>

declare rmatch.simps(8) [simp del]
declare rmatch.simps(9) [simp del]

definition Chr :: "char \<Rightarrow> rx" where
  "Chr c = Cls (\<lambda>d. d = c)"

definition Plus :: "rx \<Rightarrow> rx" where
  "Plus r = Seq r (Star r)"

fun Lit :: "string \<Rightarrow> rx" where
  "Lit [] = Eps"
| "Lit (c # cs) = Seq (Chr c) (Lit cs)"

text \<open>\<open>.\<close> matches every character but the newline, and every character under \<open>re.S\<close>.\<close>

definition dot :: "bool \<Rightarrow> rx" where
  "dot dotall = Cls (\<lambda>c. dotall \<or> c \<noteq> NL)"

text \<open>
  \<open>finditer\<close> scans from the left: at each position it takes the first match, if there is
  one, and goes on from the end of that match. The matches are returned as their
  \<open>(start, end)\<close> indices. \<open>re_sub\<close> copies the text between the matches and writes the
  replacement for each match. No pattern of the program matches the empty string; after
  an empty match the model moves one character forward.
\<close>

function finditer_from :: "rx \<Rightarrow> pos \<Rightarrow> (pos \<times> pos) list" where
  "finditer_from r x =
     (case rmatch r x of
        m # _ \<Rightarrow>
          (x, m) # (if length (snd m) < length (snd x) then finditer_from r m
                    else (case snd x of [] \<Rightarrow> [] | c # cs \<Rightarrow> finditer_from r (c # fst x, cs)))
      | [] \<Rightarrow> (case snd x of [] \<Rightarrow> [] | c # cs \<Rightarrow> finditer_from r (c # fst x, cs)))"
  by pat_completeness auto
termination
  by (relation "measure (\<lambda>(r, x). length (snd x))") auto

definition finditer :: "rx \<Rightarrow> string \<Rightarrow> (nat \<times> nat) list" where
  "finditer r s = map (\<lambda>(x, m). (length (fst x), length (fst m))) (finditer_from r ([], s))"

definition findall :: "rx \<Rightarrow> string \<Rightarrow> string list" where
  "findall r s = map (\<lambda>(i, j). take (j - i) (drop i s)) (finditer r s)"

function re_sub_from :: "rx \<Rightarrow> string \<Rightarrow> pos \<Rightarrow> string" where
  "re_sub_from r repl x =
     (case rmatch r x of
        m # _ \<Rightarrow>
          repl @ (if length (snd m) < length (snd x) then re_sub_from r repl m
                  else (case snd x of [] \<Rightarrow> [] | c # cs \<Rightarrow> c # re_sub_from r repl (c # fst x, cs)))
      | [] \<Rightarrow> (case snd x of [] \<Rightarrow> [] | c # cs \<Rightarrow> c # re_sub_from r repl (c # fst x, cs)))"
  by pat_completeness auto
termination
  by (relation "measure (\<lambda>(r, repl, x). length (snd x))") auto

declare finditer_from.simps [simp del]
declare re_sub_from.simps [simp del]

definition re_sub :: "rx \<Rightarrow> string \<Rightarrow> string \<Rightarrow> string" where
  "re_sub r repl s = re_sub_from r repl ([], s)"

text \<open>\<open>re.match(pattern, name)\<close> as a truth value: is there a match at the start.\<close>

definition re_match :: "rx \<Rightarrow> string \<Rightarrow> bool" where
  "re_match r s = (rmatch r ([], s) \<noteq> [])"

text \<open>\<open>s.count(sub)\<close>: occurrences counted from the left, without overlap.\<close>

function count_sub :: "string \<Rightarrow> string \<Rightarrow> nat" where
  "count_sub sub s =
     (if sub = [] then length s + 1
      else if prefix sub s then 1 + count_sub sub (drop (length sub) s)
      else (case s of [] \<Rightarrow> 0 | _ # t \<Rightarrow> count_sub sub t))"
  by pat_completeness auto
termination
  by (relation "measure (\<lambda>(sub, s). length s)") (auto simp: prefix_def)

declare count_sub.simps [simp del]

text \<open>
  \<open>all_cls P r\<close>: every character class of the pattern \<open>r\<close> lies inside \<open>P\<close>, so a match
  of \<open>r\<close> consumes characters of \<open>P\<close> only.
\<close>

fun all_cls :: "(char \<Rightarrow> bool) \<Rightarrow> rx \<Rightarrow> bool" where
  "all_cls P Eps = True"
| "all_cls P (Cls p) = (\<forall>c. p c \<longrightarrow> P c)"
| "all_cls P Bnd = True"
| "all_cls P (Seq r1 r2) = (all_cls P r1 \<and> all_cls P r2)"
| "all_cls P (Alt r1 r2) = (all_cls P r1 \<and> all_cls P r2)"
| "all_cls P (Opt r) = all_cls P r"
| "all_cls P (Star r) = all_cls P r"
| "all_cls P (StarLazy r) = all_cls P r"

section \<open>Cyclomatic complexity (cc.py)\<close>

subsection \<open>The lexical stripper\<close>

text \<open>
  The four patterns of \<^verbatim>\<open>_strip_comments_and_strings\<close>:
  \<^verbatim>\<open>"(\\.|[^"\\])*"\<close> and its single-quote twin under \<open>re.S\<close>, \<^verbatim>\<open>//.*\<close> and
  \<^verbatim>\<open>/\*.*?\*/\<close> under \<open>re.S\<close>.
\<close>

definition quoted :: "char \<Rightarrow> bool \<Rightarrow> rx" where
  "quoted q dotall =
     Seq (Chr q)
    (Seq (Star (Alt (Seq (Chr BS) (dot dotall)) (Cls (\<lambda>c. c \<noteq> q \<and> c \<noteq> BS))))
         (Chr q))"

definition line_comment :: rx where
  "line_comment = Seq (Lit ''//'') (Star (dot False))"

definition block_comment :: "rx \<Rightarrow> rx" where
  "block_comment any = Seq (Lit ''/*'') (Seq (StarLazy any) (Lit ''*/''))"

definition cc_strip_comments_and_strings :: "string \<Rightarrow> string" where
  "cc_strip_comments_and_strings code =
     (let code = re_sub (quoted DQ True) [DQ, DQ] code;
          code = re_sub (quoted SQ True) [SQ, SQ] code;
          code = re_sub line_comment [] code;
          code = re_sub (block_comment (dot True)) [] code
      in code)"

subsection \<open>The decision-point counter\<close>

text \<open>\<^verbatim>\<open>\bif\b\<close> and the other four keyword patterns; \<open>len(re.findall(...))\<close> counts the matches.\<close>

definition keyword :: "string \<Rightarrow> rx" where
  "keyword kw = Seq Bnd (Seq (Lit kw) Bnd)"

definition decisions :: "string \<Rightarrow> nat" where
  "decisions body =
     length (finditer (keyword ''if'') body)
   + length (finditer (keyword ''for'') body)
   + length (finditer (keyword ''while'') body)
   + length (finditer (keyword ''case'') body)
   + length (finditer (keyword ''catch'') body)
   + count_list body CHR ''?''
   + count_sub ''&&'' body
   + count_sub ''||'' body"

definition cyclomatic :: "string \<Rightarrow> nat" where
  "cyclomatic body = decisions body + 1"

text \<open>
  What the counter is meant to count, said without regular expressions: a whole-word
  occurrence of \<open>kw\<close> is an index at which \<open>kw\<close> is written with no word character
  directly before it and none directly after it.
\<close>

definition word_at :: "string \<Rightarrow> string \<Rightarrow> nat \<Rightarrow> bool" where
  "word_at kw text i =
     (take (length kw) (drop i text) = kw
      \<and> \<not> (0 < i \<and> is_word (text ! (i - 1)))
      \<and> \<not> (i + length kw < length text \<and> is_word (text ! (i + length kw))))"

definition whole_word_occurrences :: "string \<Rightarrow> string \<Rightarrow> nat" where
  "whole_word_occurrences kw text = length (filter (word_at kw text) [0..<length text])"

text \<open>The indices at which \<open>sub\<close> is written in a text, overlapping or not.\<close>

definition occurrences :: "string \<Rightarrow> string \<Rightarrow> nat" where
  "occurrences sub text =
     length (filter (\<lambda>i. take (length sub) (drop i text) = sub) [0..<length text])"

text \<open>
  The lengths of the maximal runs of the character \<open>c\<close> in a text, the run that is open
  at the start having \<open>n\<close> characters already; and the number of pairs \<open>cc\<close> that these
  runs hold side by side: a run of \<open>n\<close> characters holds \<open>n div 2\<close> of them.
\<close>

fun runs :: "char \<Rightarrow> string \<Rightarrow> nat \<Rightarrow> nat list" where
  "runs c [] n = [n]"
| "runs c (x # xs) n = (if x = c then runs c xs (Suc n) else n # runs c xs 0)"

definition pairs_in_runs :: "char \<Rightarrow> string \<Rightarrow> nat" where
  "pairs_in_runs c text = sum_list (map (\<lambda>n. n div 2) (runs c text 0))"

subsection \<open>The function-boundary locator\<close>

text \<open>
  \<^verbatim>\<open>([A-Za-z_~][\w:\*<>,\s\&\(\)\[\]]*?)\s+([A-Za-z_~][\w:]*)\s*\([^;{]*\)\s*\<close>
  \<^verbatim>\<open>(?:const\s*)?(?:->\s*[A-Za-z_][\w:]*)?\s*\{\<close>. The flag \<open>re.M\<close> changes only
  \<open>^\<close> and \<open>$\<close>, which the pattern does not use.
\<close>

definition func_pattern :: rx where
  "func_pattern =
     Seq (Seq (Cls (\<lambda>c. is_alpha_us c \<or> c = CHR ''~''))
              (StarLazy (Cls (\<lambda>c. is_word c \<or> c \<in> set '':*<>,&()[]'' \<or> is_space c))))
    (Seq (Plus (Cls is_space))
    (Seq (Seq (Cls (\<lambda>c. is_alpha_us c \<or> c = CHR ''~''))
              (Star (Cls (\<lambda>c. is_word c \<or> c = CHR '':''))))
    (Seq (Star (Cls is_space))
    (Seq (Chr CHR ''('')
    (Seq (Star (Cls (\<lambda>c. c \<noteq> CHR '';'' \<and> c \<noteq> CHR ''{'')))
    (Seq (Chr CHR '')'')
    (Seq (Star (Cls is_space))
    (Seq (Opt (Seq (Lit ''const'') (Star (Cls is_space))))
    (Seq (Opt (Seq (Lit ''->'') (Seq (Star (Cls is_space))
            (Seq (Cls is_alpha_us) (Star (Cls (\<lambda>c. is_word c \<or> c = CHR '':'')))))))
    (Seq (Star (Cls is_space))
         (Chr CHR ''{'')))))))))))"

text \<open>
  The \<open>while idx < length\<close> loop that looks for the closing brace, run on the text from
  the opening brace on: \<open>None\<close> is \<open>found == False\<close> at the end of the text.
\<close>

fun brace_scan :: "string \<Rightarrow> nat \<Rightarrow> int \<Rightarrow> nat option" where
  "brace_scan [] idx balance = None"
| "brace_scan (ch # rest) idx balance =
     (if ch = CHR ''{'' then brace_scan rest (idx + 1) (balance + 1)
      else if ch = CHR ''}'' then
        (if balance - 1 = 0 then Some idx else brace_scan rest (idx + 1) (balance - 1))
      else brace_scan rest (idx + 1) balance)"

text \<open>
  The running brace balance that the loop keeps, as a function of the text: the balance
  after index \<open>k\<close> of a scan that started at index \<open>from\<close>. \<open>never_balanced\<close> says that
  it is not zero at any index up to the end of the text.
\<close>

definition brace_balance :: "string \<Rightarrow> int" where
  "brace_balance s = int (count_list s CHR ''{'') - int (count_list s CHR ''}'')"

definition balance_at :: "string \<Rightarrow> nat \<Rightarrow> nat \<Rightarrow> int" where
  "balance_at code from k = brace_balance (take (k + 1 - from) (drop from code))"

definition never_balanced :: "string \<Rightarrow> nat \<Rightarrow> bool" where
  "never_balanced code from = list_all (\<lambda>k. balance_at code from k \<noteq> 0) [from..<length code]"

record function_record =
  filename :: string
  function_start :: nat
  function_end :: nat
  cc :: nat

text \<open>
  The body of the \<open>for m in func_pattern.finditer(code)\<close> loop, for one match:
  \<open>None\<close> is the \<open>continue\<close> of an unterminated body.
\<close>

definition function_of_match :: "string \<Rightarrow> string \<Rightarrow> nat \<times> nat \<Rightarrow> function_record option" where
  "function_of_match file_path code m =
     (case m of (m_start, m_end) \<Rightarrow>
      (let open_brace_idx = m_end - 1 in
       case brace_scan (drop open_brace_idx code) open_brace_idx 0 of
         None \<Rightarrow> None
       | Some close_brace_idx \<Rightarrow>
           (let start_line = count_list (take m_start code) NL + 1;
                end_line = count_list (take close_brace_idx code) NL + 1;
                body = take (close_brace_idx - m_end) (drop m_end code)
            in Some \<lparr>filename = file_path, function_start = start_line,
                     function_end = end_line, cc = cyclomatic body\<rparr>)))"

fun emit_functions :: "string \<Rightarrow> string \<Rightarrow> (nat \<times> nat) list \<Rightarrow> function_record list" where
  "emit_functions file_path code [] = []"
| "emit_functions file_path code (m # ms) =
     (case function_of_match file_path code m of
        None \<Rightarrow> emit_functions file_path code ms
      | Some r \<Rightarrow> r # emit_functions file_path code ms)"

text \<open>\<^verbatim>\<open>find_functions_in_file\<close> once the file has been read.\<close>

definition find_functions_in_text :: "string \<Rightarrow> string \<Rightarrow> function_record list" where
  "find_functions_in_text file_path content =
     (let code = cc_strip_comments_and_strings content
      in emit_functions file_path code (finditer func_pattern code))"

subsection \<open>Reading a file and aggregating a project\<close>

text \<open>
  What the two \<open>open\<close>/\<open>read\<close> attempts of \<^verbatim>\<open>_read_file_with_fallback\<close> do is an input
  of the model: the utf-8 read returns the text; or it raises \<open>UnicodeDecodeError\<close> or
  \<open>PermissionError\<close> and the latin-1 read returns a text or raises (\<open>None\<close>); or it
  raises another exception, which the function does not catch.
\<close>

datatype read_result = Utf8 string | Utf8Fails "string option" | OpenFails

datatype exn = FileNotFoundError | OSError

definition read_file_with_fallback :: "read_result \<Rightarrow> exn + string option" where
  "read_file_with_fallback rr =
     (case rr of
        Utf8 content \<Rightarrow> Inr (Some content)
      | Utf8Fails latin1 \<Rightarrow> Inr latin1
      | OpenFails \<Rightarrow> Inl OSError)"

definition find_functions_in_file :: "string \<Rightarrow> read_result \<Rightarrow> exn + function_record list" where
  "find_functions_in_file file_path rr =
     (case read_file_with_fallback rr of
        Inl e \<Rightarrow> Inl e
      | Inr None \<Rightarrow> Inr []
      | Inr (Some content) \<Rightarrow> Inr (find_functions_in_text file_path content))"

text \<open>\<open>handle_file\<close> of \<^verbatim>\<open>get_cc_metrics\<close>: \<open>except Exception: return None\<close>.\<close>

definition handle_file :: "string \<Rightarrow> read_result \<Rightarrow> function_record list option" where
  "handle_file path rr =
     (case find_functions_in_file path rr of Inl e \<Rightarrow> None | Inr funcs \<Rightarrow> Some funcs)"

text \<open>
  What \<open>self.src\<close> is on disk: nothing, one file, or a directory, given as the files
  that \<open>os.walk\<close> yields in its order, each with its joined path, its name and what
  reading it does. The ignore patterns are patterns of the model.
\<close>

datatype src_path = Missing | File read_result | Directory "(string \<times> string \<times> read_result) list"

record project =
  name :: string
  description :: string
  src :: string
  src_file_extensions :: "string list"
  ignore :: "rx list option"

record cc_metrics =
  total_cc :: nat
  files_count :: nat
  details :: "function_record list"

definition has_extension :: "string list \<Rightarrow> string \<Rightarrow> bool" where
  "has_extension exts nm = list_ex (\<lambda>ext. suffix ext nm) exts"

definition ignored :: "rx list option \<Rightarrow> string \<Rightarrow> bool" where
  "ignored ign nm = (case ign of None \<Rightarrow> False | Some pats \<Rightarrow> list_ex (\<lambda>pat. re_match pat nm) pats)"

text \<open>The \<open>if recs:\<close> block: nothing happens for \<open>None\<close> and for the empty list.\<close>

fun add_records :: "function_record list \<Rightarrow> cc_metrics \<Rightarrow> cc_metrics" where
  "add_records [] m = m"
| "add_records (r # rs) m =
     add_records rs (m\<lparr>details := details m @ [r], total_cc := total_cc m + cc r\<rparr>)"

definition account_file :: "function_record list option \<Rightarrow> cc_metrics \<Rightarrow> cc_metrics" where
  "account_file recs m =
     (case recs of
        None \<Rightarrow> m
      | Some [] \<Rightarrow> m
      | Some (r # rs) \<Rightarrow>
          (let m = add_records (r # rs) m in m\<lparr>files_count := files_count m + 1\<rparr>))"

fun walk_files :: "project \<Rightarrow> (string \<times> string \<times> read_result) list \<Rightarrow> cc_metrics \<Rightarrow> cc_metrics" where
  "walk_files p [] m = m"
| "walk_files p ((path, nm, rr) # rest) m =
     (if \<not> has_extension (src_file_extensions p) nm then walk_files p rest m
      else if ignored (ignore p) nm then walk_files p rest m
      else walk_files p rest (account_file (handle_file path rr) m))"

definition get_cc_metrics :: "project \<Rightarrow> src_path \<Rightarrow> exn + cc_metrics" where
  "get_cc_metrics p fs =
     (let m = \<lparr>total_cc = 0, files_count = 0, details = []\<rparr> in
      case fs of
        Missing \<Rightarrow> Inl FileNotFoundError
      | File rr \<Rightarrow>
          Inr (if has_extension (src_file_extensions p) (src p)
               then account_file (handle_file (src p) rr) m else m)
      | Directory entries \<Rightarrow> Inr (walk_files p entries m))"

text \<open>
  The files of a project that pass the extension and ignore filters, and the records
  each of them yields.
\<close>

definition selected_files :: "project \<Rightarrow> src_path \<Rightarrow> (string \<times> read_result) list" where
  "selected_files p fs =
     (case fs of
        Missing \<Rightarrow> []
      | File rr \<Rightarrow> (if has_extension (src_file_extensions p) (src p) then [(src p, rr)] else [])
      | Directory entries \<Rightarrow>
          map (\<lambda>(path, nm, rr). (path, rr))
            (filter (\<lambda>(path, nm, rr). has_extension (src_file_extensions p) nm
                                     \<and> \<not> ignored (ignore p) nm) entries))"

definition records_of :: "string \<times> read_result \<Rightarrow> function_record list" where
  "records_of f = (case handle_file (fst f) (snd f) of None \<Rightarrow> [] | Some recs \<Rightarrow> recs)"

section \<open>Halstead metrics (halstead.py)\<close>

subsection \<open>The lexical stripper and the tokenizer\<close>

text \<open>
  \<^verbatim>\<open>strip_comments_and_strings\<close>: \<^verbatim>\<open>//.*\<close>, \<^verbatim>\<open>/\*[\s\S]*?\*/\<close>,
  \<^verbatim>\<open>"(?:\\.|[^"\\])*"\<close> and its single-quote twin, without flags, each replaced by
  the empty string.
\<close>

definition strip_comments_and_strings :: "string \<Rightarrow> string" where
  "strip_comments_and_strings code =
     (let code = re_sub line_comment [] code;
          code = re_sub (block_comment (Cls (\<lambda>c. is_space c \<or> \<not> is_space c))) [] code;
          code = re_sub (quoted DQ False) [] code;
          code = re_sub (quoted SQ False) [] code
      in code)"

text \<open>
  The entries of \<open>OPERATORS\<close> are regular expression texts made of plain characters
  and backslash-escaped characters; each matches its characters literally. The length
  of the text, which the tokenizer sorts by, counts two for an escaped character.
\<close>

datatype rtok = Esc char | Raw char

fun rtok_len :: "rtok \<Rightarrow> nat" where
  "rtok_len (Esc c) = 2"
| "rtok_len (Raw c) = 1"

fun rtok_char :: "rtok \<Rightarrow> char" where
  "rtok_char (Esc c) = c"
| "rtok_char (Raw c) = c"

definition OPERATORS :: "rtok list list" where
  "OPERATORS =
    [[Esc CHR ''+'', Esc CHR ''+''], [Raw CHR ''-'', Raw CHR ''-''], [Raw CHR ''-'', Raw CHR ''>''],
     [Esc CHR ''.''], [Raw CHR '':'', Raw CHR '':''],
     [Esc CHR ''+'', Esc CHR ''=''], [Raw CHR ''-'', Raw CHR ''=''], [Esc CHR ''*'', Raw CHR ''=''],
     [Raw CHR ''/'', Raw CHR ''=''], [Raw CHR ''%'', Raw CHR ''=''],
     [Esc CHR ''+''], [Raw CHR ''-''], [Esc CHR ''*''], [Raw CHR ''/''], [Raw CHR ''%''],
     [Raw CHR ''=''], [Raw CHR ''='', Raw CHR ''=''], [Raw CHR ''!'', Raw CHR ''=''],
     [Raw CHR ''<'', Raw CHR ''=''], [Raw CHR ''>'', Raw CHR ''=''], [Raw CHR ''<''], [Raw CHR ''>''],
     [Raw CHR ''&'', Raw CHR ''&''], [Esc CHR ''|'', Esc CHR ''|''], [Raw CHR ''!''], [Raw CHR ''&''],
     [Esc CHR ''|''], [Esc CHR ''^''], [Raw CHR ''~''], [Raw CHR ''<'', Raw CHR ''<''],
     [Raw CHR ''>'', Raw CHR ''>''],
     [Esc CHR ''?''], [Raw CHR '':''], [Raw CHR '';''], [Raw CHR '',''],
     [Esc CHR ''(''], [Esc CHR '')''], [Esc CHR ''{''], [Esc CHR ''}''], [Esc CHR ''[''], [Esc CHR '']'']]"

definition op_len :: "rtok list \<Rightarrow> nat" where
  "op_len op = sum_list (map rtok_len op)"

definition op_pattern :: "rtok list \<Rightarrow> rx" where
  "op_pattern op = Lit (map rtok_char op)"

text \<open>
  \<open>sorted(OPERATORS, key=len, reverse=True)\<close>: longest text first, entries of equal
  length in their original order.
\<close>

definition sorted_operators :: "rtok list list" where
  "sorted_operators = rev (sort_key op_len (rev OPERATORS))"

fun operator_pass :: "rtok list list \<Rightarrow> string list \<Rightarrow> string \<Rightarrow> string list \<times> string" where
  "operator_pass [] operators_found code = (operators_found, code)"
| "operator_pass (op # ops) operators_found code =
     (let matches = findall (op_pattern op) code in
      if matches \<noteq> []
      then operator_pass ops (operators_found @ matches) (re_sub (op_pattern op) '' '' code)
      else operator_pass ops operators_found code)"

text \<open>\<^verbatim>\<open>\b[_a-zA-Z][_a-zA-Z0-9]*\b\<close> and \<^verbatim>\<open>\b\d+(?:\.\d+)?\b\<close>.\<close>

definition IDENTIFIER :: rx where
  "IDENTIFIER =
     Seq Bnd (Seq (Cls is_alpha_us) (Seq (Star (Cls (\<lambda>c. is_alpha_us c \<or> is_digit c))) Bnd))"

definition NUMBER :: rx where
  "NUMBER =
     Seq Bnd (Seq (Plus (Cls is_digit))
             (Seq (Opt (Seq (Chr CHR ''.'') (Plus (Cls is_digit)))) Bnd))"

definition tokenize_source :: "string \<Rightarrow> string list \<times> string list" where
  "tokenize_source code =
     (let code = strip_comments_and_strings code;
          (operators_found, code) = operator_pass sorted_operators [] code;
          operands_found = findall IDENTIFIER code @ findall NUMBER code
      in (operators_found, operands_found))"

subsection \<open>The metrics\<close>

text \<open>Python floats are taken as real numbers; \<open>math.log2\<close> is the logarithm to base 2.\<close>

record halstead =
  n1 :: nat
  n2 :: nat
  N1 :: nat
  N2 :: nat
  vocabulary :: nat
  length_h :: nat
  volume :: real
  difficulty :: real
  effort :: real
  time :: real
  bugs :: real

definition compute_halstead :: "string list \<Rightarrow> string list \<Rightarrow> halstead" where
  "compute_halstead operators operands =
     (let n1 = card (set operators);
          n2 = card (set operands);
          N1 = length operators;
          N2 = length operands;
          vocabulary = n1 + n2;
          len = N1 + N2;
          volume = (if vocabulary > 0 \<and> len > 0 then real len * log 2 (real vocabulary) else 0);
          difficulty = (if n2 > 0 then (real n1 / 2) * (real N2 / real n2) else 0);
          effort = difficulty * volume;
          time = (if effort > 0 then effort / 18 else 0);
          bugs = (if volume > 0 then volume / 3000 else 0)
      in \<lparr>n1 = n1, n2 = n2, N1 = N1, N2 = N2, vocabulary = vocabulary, length_h = len,
          volume = volume, difficulty = difficulty, effort = effort, time = time,
          bugs = bugs\<rparr>)"

section \<open>Strategy A of the data-flow analyzer (dfc.py)\<close>

subsection \<open>The syntax tree and the visitor\<close>

text \<open>
  The analyzer walks a syntax tree of the external C parser. The visitor has methods
  for five node classes; every other class goes through the generic visit of the
  parser's \<open>NodeVisitor\<close>, which visits the children in order. So the model has those
  five classes and one constructor, \<open>Node\<close>, for all the others, with their children.
  A field that can be absent (\<open>None\<close>) is an option.
\<close>

datatype node =
    ID string
  | Assignment string node "node option"
  | If' "node option" "node option" "node option"
  | While "node option" "node option"
  | For "node option" "node option" "node option" "node option"
  | Node "node list"

record block =
  defs :: "string set"
  uses :: "string set"

record analyzer =
  blocks :: "block list"
  current_block :: block

definition new_analyzer :: analyzer where
  "new_analyzer = \<lparr>blocks = [], current_block = \<lparr>defs = {}, uses = {}\<rparr>\<rparr>"

definition add_block :: "analyzer \<Rightarrow> analyzer" where
  "add_block a =
     \<lparr>blocks = (if defs (current_block a) \<noteq> {} \<or> uses (current_block a) \<noteq> {}
                then blocks a @ [current_block a] else blocks a),
      current_block = \<lparr>defs = {}, uses = {}\<rparr>\<rparr>"

definition add_def :: "string \<Rightarrow> analyzer \<Rightarrow> analyzer" where
  "add_def nm a = a\<lparr>current_block := (current_block a)\<lparr>defs := insert nm (defs (current_block a))\<rparr>\<rparr>"

definition add_use :: "string \<Rightarrow> analyzer \<Rightarrow> analyzer" where
  "add_use nm a = a\<lparr>current_block := (current_block a)\<lparr>uses := insert nm (uses (current_block a))\<rparr>\<rparr>"

text \<open>
  \<open>visit_opt\<close> is \<open>if node.x: self.visit(node.x)\<close>; \<open>visit_branch\<close> is the same followed
  by \<open>self.add_block()\<close> inside the \<open>if\<close>, as for the two arms of an \<open>If\<close>.
\<close>

fun visit :: "node \<Rightarrow> analyzer \<Rightarrow> analyzer"
  and visit_opt :: "node option \<Rightarrow> analyzer \<Rightarrow> analyzer"
  and visit_branch :: "node option \<Rightarrow> analyzer \<Rightarrow> analyzer"
  and visit_children :: "node list \<Rightarrow> analyzer \<Rightarrow> analyzer" where
  "visit (ID nm) a = add_use nm a"
| "visit (Assignment op lvalue rvalue) a =
     visit_opt rvalue (case lvalue of ID nm \<Rightarrow> add_def nm a | _ \<Rightarrow> a)"
| "visit (If' cond iftrue iffalse) a =
     visit_branch iffalse (visit_branch iftrue (add_block (visit_opt cond a)))"
| "visit (While cond stmt) a =
     add_block (visit_opt stmt (add_block (visit_opt cond a)))"
| "visit (For init cond nxt stmt) a =
     add_block (visit_opt stmt (add_block (visit_opt nxt (visit_opt cond (visit_opt init a)))))"
| "visit (Node children) a = visit_children children a"
| "visit_opt None a = a"
| "visit_opt (Some n) a = visit n a"
| "visit_branch None a = a"
| "visit_branch (Some n) a = add_block (visit n a)"
| "visit_children [] a = a"
| "visit_children (c # cs) a = visit_children cs (visit c a)"

subsection \<open>The variant with locally exposed variables (dfc_pycparser_backup.py)\<close>

record block_b =
  defs_b :: "string set"
  uses_b :: "string set"
  exposed_b :: "string set"

record analyzer_b =
  blocks_b :: "block_b list"
  current_block_b :: block_b
  visited_ids :: "string set"


definition add_block_b :: "analyzer_b \<Rightarrow> analyzer_b" where
  "add_block_b a =
     \<lparr>blocks_b =
        (if defs_b (current_block_b a) \<noteq> {} \<or> uses_b (current_block_b a) \<noteq> {}
         then blocks_b a
              @ [(current_block_b a)\<lparr>exposed_b :=
                    uses_b (current_block_b a) - defs_b (current_block_b a)\<rparr>]
         else blocks_b a),
      current_block_b = \<lparr>defs_b = {}, uses_b = {}, exposed_b = {}\<rparr>,
      visited_ids = {}\<rparr>"

definition add_def_b :: "string \<Rightarrow> analyzer_b \<Rightarrow> analyzer_b" where
  "add_def_b nm a =
     a\<lparr>current_block_b := (current_block_b a)\<lparr>defs_b := insert nm (defs_b (current_block_b a))\<rparr>\<rparr>"

definition add_use_b :: "string \<Rightarrow> analyzer_b \<Rightarrow> analyzer_b" where
  "add_use_b nm a =
     (if nm \<notin> defs_b (current_block_b a)
      then a\<lparr>current_block_b :=
               (current_block_b a)\<lparr>uses_b := insert nm (uses_b (current_block_b a))\<rparr>\<rparr>
      else a)"

fun visit_b :: "node \<Rightarrow> analyzer_b \<Rightarrow> analyzer_b"
  and visit_opt_b :: "node option \<Rightarrow> analyzer_b \<Rightarrow> analyzer_b"
  and visit_branch_b :: "node option \<Rightarrow> analyzer_b \<Rightarrow> analyzer_b"
  and visit_children_b :: "node list \<Rightarrow> analyzer_b \<Rightarrow> analyzer_b" where
  "visit_b (ID nm) a = add_use_b nm a"
| "visit_b (Assignment op lvalue rvalue) a =
     (let a = visit_opt_b rvalue a
      in case lvalue of ID nm \<Rightarrow> add_def_b nm a | _ \<Rightarrow> a)"
| "visit_b (If' cond iftrue iffalse) a =
     visit_branch_b iffalse (visit_branch_b iftrue (add_block_b (visit_opt_b cond a)))"
| "visit_b (While cond stmt) a =
     add_block_b (visit_opt_b stmt (add_block_b (visit_opt_b cond a)))"
| "visit_b (For init cond nxt stmt) a =
     add_block_b (visit_opt_b stmt
       (add_block_b (visit_opt_b nxt (visit_opt_b cond (visit_opt_b init a)))))"
| "visit_b (Node children) a = visit_children_b children a"
| "visit_opt_b None a = a"
| "visit_opt_b (Some n) a = visit_b n a"
| "visit_branch_b None a = a"
| "visit_branch_b (Some n) a = add_block_b (visit_b n a)"
| "visit_children_b [] a = a"
| "visit_children_b (c # cs) a = visit_children_b cs (visit_b c a)"

text \<open>
  The identifier nodes of a tree, and the trees that are plain expressions: no
  assignment and no \<open>If\<close>, \<open>While\<close> or \<open>For\<close> inside.
\<close>

fun ids :: "node \<Rightarrow> string set"
  and ids_opt :: "node option \<Rightarrow> string set"
  and ids_list :: "node list \<Rightarrow> string set" where
  "ids (ID nm) = {nm}"
| "ids (Assignment op lvalue rvalue) = ids lvalue \<union> ids_opt rvalue"
| "ids (If' cond iftrue iffalse) = ids_opt cond \<union> ids_opt iftrue \<union> ids_opt iffalse"
| "ids (While cond stmt) = ids_opt cond \<union> ids_opt stmt"
| "ids (For init cond nxt stmt) = ids_opt init \<union> ids_opt cond \<union> ids_opt nxt \<union> ids_opt stmt"
| "ids (Node children) = ids_list children"
| "ids_opt None = {}"
| "ids_opt (Some n) = ids n"
| "ids_list [] = {}"
| "ids_list (c # cs) = ids c \<union> ids_list cs"



subsection \<open>Reaching definitions over the chain of blocks\<close>

text \<open>
  The graph has the edges \<open>i \<rightarrow> i + 1\<close> only, so the predecessors of block \<open>i\<close> are
  \<open>[i - 1]\<close>, and none for the first block. One pass of the \<open>for i in range(n)\<close> loop
  is \<open>sweep\<close>: it goes through the blocks with the current entry of the predecessor,
  and returns the new list with the \<open>changed\<close> flag. \<open>reach_loop\<close> is the
  \<open>while changed\<close> loop.
\<close>

fun sweep :: "block list \<Rightarrow> string set \<Rightarrow> string set list \<Rightarrow> string set list \<times> bool" where
  "sweep (b # bs) in_defs (r # rs) =
     (let generated = defs b;
          killed = defs b;
          new_out = (in_defs - killed) \<union> generated;
          r' = (if new_out \<noteq> r then new_out else r);
          (rs', changed) = sweep bs r' rs
      in (r' # rs', new_out \<noteq> r \<or> changed))"
| "sweep bs in_defs rs = ([], False)"

text \<open>
  The loop ends: after one pass the list is the fixed point, so the next pass changes
  nothing.
\<close>

function reach_loop :: "block list \<Rightarrow> string set list \<Rightarrow> string set list" where
  "reach_loop bs reaching =
     (case sweep bs {} reaching of
        (reaching', changed) \<Rightarrow> if changed then reach_loop bs reaching' else reaching')"
  by pat_completeness auto
termination
proof (relation "measure (\<lambda>(bs, reaching). if snd (sweep bs {} reaching) then 1 else 0)")
  show "wf (measure (\<lambda>(bs, reaching). if snd (sweep bs {} reaching) then 1 else 0))"
    by simp
next
  fix bs :: "block list" and reaching x :: "string set list" and y :: bool
  assume xy: "(x, y) = sweep bs {} reaching" and y: "y"
  have fixed: "\<not> snd (sweep cs i (fst (sweep cs i rs)))" for cs i rs
  proof (induction cs arbitrary: i rs)
    case Nil
    show ?case by simp
  next
    case (Cons c cs)
    show ?case
    proof (cases rs)
      case Nil
      then show ?thesis by simp
    next
      case (Cons r rs')
      have same: "(if n \<noteq> r then n else r) = n" for n by simp
      show ?thesis
        using Cons.IH[of "i - defs c \<union> defs c" rs'] Cons
        by (simp add: Let_def same case_prod_beta)
    qed
  qed
  from xy have "x = fst (sweep bs {} reaching)" by (metis fst_conv)
  moreover from xy y have "snd (sweep bs {} reaching)" by (metis snd_conv)
  ultimately show "((bs, x), bs, reaching)
        \<in> measure (\<lambda>(bs, reaching). if snd (sweep bs {} reaching) then 1 else 0)"
    using fixed[of bs "{}" reaching] by simp
qed

declare reach_loop.simps [simp del]

definition compute_data_flow_complexity :: "node \<Rightarrow> nat \<times> block list" where
  "compute_data_flow_complexity ast_root =
     (let analyzer = add_block (visit ast_root new_analyzer);
          n = length (blocks analyzer)
      in if n = 0 then (0, blocks analyzer)
         else (let reaching_defs = reach_loop (blocks analyzer) (replicate n {})
               in (sum_list (map card reaching_defs), blocks analyzer)))"

subsection \<open>The fallback tiers of \<open>analyze_file\<close>\<close>

text \<open>
  What the parser and the preprocessor do with a file is an input of the model: each
  of the three attempts raises an exception or returns. The first tier reads the file
  and parses the text; the second runs \<open>parse_file\<close> with the preprocessor; the third
  runs \<open>cpp\<close> as a subprocess, which raises or returns a return code and its output,
  and then parses that output.
\<close>

datatype 'a attempt = Raises | Returns 'a

record file_attempts =
  raw_parse :: "node attempt"
  cpp_parse :: "node attempt"
  cpp_run :: "(int \<times> string) attempt"
  cpp_output_parse :: "node attempt"

text \<open>A tier of the first two: \<open>None\<close> when the \<open>try\<close> block ends without a \<open>return\<close>.\<close>

definition tier :: "node attempt \<Rightarrow> (nat \<times> block list) option" where
  "tier a =
     (case a of
        Raises \<Rightarrow> None
      | Returns ast \<Rightarrow>
          (case compute_data_flow_complexity ast of
             (dfc, blks) \<Rightarrow> if blks \<noteq> [] then Some (dfc, blks) else None))"

definition analyze_file :: "file_attempts \<Rightarrow> nat \<times> block list" where
  "analyze_file f =
     (case tier (raw_parse f) of
        Some res \<Rightarrow> res
      | None \<Rightarrow>
     (case tier (cpp_parse f) of
        Some res \<Rightarrow> res
      | None \<Rightarrow>
     (case cpp_run f of
        Raises \<Rightarrow> (0, [])
      | Returns (returncode, stdout) \<Rightarrow>
          if returncode = 0 \<and> stdout \<noteq> []
          then (case cpp_output_parse f of
                  Raises \<Rightarrow> (0, [])
                | Returns ast \<Rightarrow> compute_data_flow_complexity ast)
          else (0, []))))"

text \<open>All tiers exhausted: the first two give nothing and the third fails.\<close>

definition exhausted :: "file_attempts \<Rightarrow> bool" where
  "exhausted f =
     (tier (raw_parse f) = None \<and> tier (cpp_parse f) = None
      \<and> (case cpp_run f of
            Raises \<Rightarrow> True
          | Returns (returncode, stdout) \<Rightarrow>
              returncode \<noteq> 0 \<or> stdout = [] \<or> cpp_output_parse f = Raises))"

record dfc_metrics =
  total_dfc :: nat
  total_files :: nat
  total_blocks :: nat

text \<open>
  The directory is the list of the files that \<open>os.walk\<close> yields, each with its name
  and what the attempts on it do; \<open>None\<close> is a path that does not exist.
\<close>

fun walk_dfc :: "string list \<Rightarrow> rx list option \<Rightarrow> (string \<times> file_attempts) list
                 \<Rightarrow> dfc_metrics \<Rightarrow> dfc_metrics" where
  "walk_dfc extensions ign [] m = m"
| "walk_dfc extensions ign ((nm, f) # rest) m =
     (if \<not> has_extension extensions nm then walk_dfc extensions ign rest m
      else if ignored ign nm then walk_dfc extensions ign rest m
      else (case analyze_file f of
              (dfc, blks) \<Rightarrow>
                walk_dfc extensions ign rest
                  \<lparr>total_dfc = total_dfc m + dfc, total_files = total_files m + 1,
                   total_blocks = total_blocks m + length blks\<rparr>))"

text \<open>The files of the directory that pass the extension and ignore filters.\<close>

definition dfc_selected ::
  "string list \<Rightarrow> rx list option \<Rightarrow> (string \<times> file_attempts) list \<Rightarrow> (string \<times> file_attempts) list" where
  "dfc_selected extensions ign entries =
     filter (\<lambda>(nm, f). has_extension extensions nm \<and> \<not> ignored ign nm) entries"

definition analyze_directory ::
  "(string \<times> file_attempts) list option \<Rightarrow> string list \<Rightarrow> rx list option \<Rightarrow> exn + dfc_metrics" where
  "analyze_directory directory extensions ign =
     (case directory of
        None \<Rightarrow> Inl FileNotFoundError
      | Some entries \<Rightarrow>
          Inr (walk_dfc extensions ign entries
                 \<lparr>total_dfc = 0, total_files = 0, total_blocks = 0\<rparr>))"

section \<open>Strategy B of the data-flow analyzer (dfc_lizard.py)\<close>

text \<open>
  \<^verbatim>\<open>estimate_dfc_from_function(func_info)\<close> reads two integer fields of the function
  information that the external analyser produced. Python integers are unbounded, so
  both fields are \<^typ>\<open>int\<close>.
\<close>

record func_info =
  parameter_count :: int
  cyclomatic_complexity :: int

definition control_flow :: "func_info \<Rightarrow> int" where
  "control_flow f = max 0 (cyclomatic_complexity f - 1)"

definition estimate_dfc_from_function :: "func_info \<Rightarrow> int" where
  "estimate_dfc_from_function f =
     (let param_flow = parameter_count f;
          cf = control_flow f
      in (param_flow * cf) + cf)"

section \<open>Facts about matching\<close>

text \<open>
  A match consumes a piece of the text after the position and leaves the rest: the end
  position has the same text around it, and the consumed characters belong to the
  classes of the pattern.
\<close>

lemma rmatch_consumes:
  "y \<in> set (rmatch r x) \<Longrightarrow> all_cls P r \<Longrightarrow>
   \<exists>m. snd x = m @ snd y \<and> fst y = rev m @ fst x \<and> (\<forall>c\<in>set m. P c)"
proof (induction r x arbitrary: y rule: rmatch.induct)
  case (1 x)
  then show ?case by simp
next
  case (2 p b)
  then show ?case by simp
next
  case (3 p b c cs)
  then show ?case by (auto split: if_splits)
next
  case (4 x)
  then show ?case by (auto split: if_splits)
next
  case (5 r1 r2 x)
  from "5.prems" obtain z where z: "z \<in> set (rmatch r1 x)" and y: "y \<in> set (rmatch r2 z)"
    by auto
  from "5.prems" have a: "all_cls P r1" "all_cls P r2" by simp_all
  from "5.IH"(1)[OF z a(1)] obtain m1
    where m1: "snd x = m1 @ snd z" "fst z = rev m1 @ fst x" "\<forall>c\<in>set m1. P c"
    by blast
  from "5.IH"(2)[OF z y a(2)] obtain m2
    where m2: "snd z = m2 @ snd y" "fst y = rev m2 @ fst z" "\<forall>c\<in>set m2. P c"
    by blast
  have "snd x = (m1 @ m2) @ snd y \<and> fst y = rev (m1 @ m2) @ fst x \<and> (\<forall>c\<in>set (m1 @ m2). P c)"
    using m1 m2 by auto
  then show ?case by blast
next
  case (6 r1 r2 x)
  then show ?case by auto
next
  case (7 r x)
  then show ?case by auto
next
  case (8 r x)
  show ?case
  proof (cases "y = x")
    case True
    then show ?thesis by simp
  next
    case False
    with "8.prems"(1)[unfolded rmatch.simps(8)[of r x]] obtain z where z: "z \<in> set (rmatch r x)"
      and lt: "length (snd z) < length (snd x)" and y: "y \<in> set (rmatch (Star r) z)"
      by (auto split: if_splits)
    from "8.prems" have a: "all_cls P r" "all_cls P (Star r)" by simp_all
    from "8.IH"(1)[OF z a(1)] obtain m1
      where m1: "snd x = m1 @ snd z" "fst z = rev m1 @ fst x" "\<forall>c\<in>set m1. P c"
      by blast
    from "8.IH"(2)[OF z lt y a(2)] obtain m2
      where m2: "snd z = m2 @ snd y" "fst y = rev m2 @ fst z" "\<forall>c\<in>set m2. P c"
      by blast
    have "snd x = (m1 @ m2) @ snd y \<and> fst y = rev (m1 @ m2) @ fst x \<and> (\<forall>c\<in>set (m1 @ m2). P c)"
      using m1 m2 by auto
    then show ?thesis by blast
  qed
next
  case (9 r x)
  show ?case
  proof (cases "y = x")
    case True
    then show ?thesis by simp
  next
    case False
    with "9.prems"(1)[unfolded rmatch.simps(9)[of r x]] obtain z where z: "z \<in> set (rmatch r x)"
      and lt: "length (snd z) < length (snd x)" and y: "y \<in> set (rmatch (StarLazy r) z)"
      by (auto split: if_splits)
    from "9.prems" have a: "all_cls P r" "all_cls P (StarLazy r)" by simp_all
    from "9.IH"(1)[OF z a(1)] obtain m1
      where m1: "snd x = m1 @ snd z" "fst z = rev m1 @ fst x" "\<forall>c\<in>set m1. P c"
      by blast
    from "9.IH"(2)[OF z lt y a(2)] obtain m2
      where m2: "snd z = m2 @ snd y" "fst y = rev m2 @ fst z" "\<forall>c\<in>set m2. P c"
      by blast
    have "snd x = (m1 @ m2) @ snd y \<and> fst y = rev (m1 @ m2) @ fst x \<and> (\<forall>c\<in>set (m1 @ m2). P c)"
      using m1 m2 by auto
    then show ?thesis by blast
  qed
qed

lemma all_cls_True: "all_cls (\<lambda>_. True) r"
  by (induction r) simp_all

lemma rmatch_split:
  "y \<in> set (rmatch r x) \<Longrightarrow> \<exists>m. snd x = m @ snd y \<and> fst y = rev m @ fst x"
  using rmatch_consumes[of y r x "\<lambda>_. True"] all_cls_True by blast

lemma rmatch_length_le:
  "y \<in> set (rmatch r x) \<Longrightarrow> length (snd y) \<le> length (snd x)"
  using rmatch_split[of y r x] by auto

lemma rmatch_text:
  "y \<in> set (rmatch r x) \<Longrightarrow> rev (fst y) @ snd y = rev (fst x) @ snd x"
  using rmatch_split[of y r x] by auto

lemma rmatch_SeqE:
  "y \<in> set (rmatch (Seq r1 r2) x) \<Longrightarrow> \<exists>z\<in>set (rmatch r1 x). y \<in> set (rmatch r2 z)"
  by auto

text \<open>A pattern that starts with a character class consumes at least one character.\<close>

lemma rmatch_Cls_first:
  "y \<in> set (rmatch (Seq (Seq (Cls p) r1) r2) x) \<Longrightarrow> length (snd y) < length (snd x)"
proof -
  assume "y \<in> set (rmatch (Seq (Seq (Cls p) r1) r2) x)"
  then obtain z where z0: "z \<in> set (rmatch (Seq (Cls p) r1) x)"
    and y: "y \<in> set (rmatch r2 z)"
    using rmatch_SeqE by blast
  from z0 obtain w where w: "w \<in> set (rmatch (Cls p) x)" and z: "z \<in> set (rmatch r1 w)"
    using rmatch_SeqE by blast
  have "length (snd w) < length (snd x)"
  proof (cases x)
    case (Pair b a)
    with w show ?thesis by (cases a) (auto split: if_splits)
  qed
  moreover have "length (snd z) \<le> length (snd w)" using z by (rule rmatch_length_le)
  moreover have "length (snd y) \<le> length (snd z)" using y by (rule rmatch_length_le)
  ultimately show ?thesis by linarith
qed

lemma finditer_from_matches:
  "(a, m) \<in> set (finditer_from r x) \<Longrightarrow>
   m \<in> set (rmatch r a) \<and> (\<exists>k. snd x = k @ snd a \<and> fst a = rev k @ fst x)"
proof (induction r x rule: finditer_from.induct)
  case (1 r x)
  have step: "\<exists>k. snd x = k @ snd a \<and> fst a = rev k @ fst x"
    if "snd x = c # cs" and "\<exists>k. cs = k @ snd a \<and> fst a = rev k @ (c # fst x)" for c cs
  proof -
    from that(2) obtain k where "cs = k @ snd a" "fst a = rev k @ (c # fst x)" by blast
    then have "snd x = (c # k) @ snd a \<and> fst a = rev (c # k) @ fst x"
      using that(1) by simp
    then show ?thesis by blast
  qed
  show ?case
  proof (cases "rmatch r x")
    case Nil
    show ?thesis
    proof (cases "snd x")
      case Nil': Nil
      with Nil "1.prems" show ?thesis
        by (simp add: finditer_from.simps[of r x])
    next
      case (Cons c cs)
      with Nil "1.prems" have "(a, m) \<in> set (finditer_from r (c # fst x, cs))"
        by (simp add: finditer_from.simps[of r x])
      from "1.IH"(1)[OF Nil Cons this] step[OF Cons] show ?thesis by simp
    qed
  next
    case (Cons m0 ms)
    show ?thesis
    proof (cases "(a, m) = (x, m0)")
      case True
      then have "m \<in> set (rmatch r a)" using Cons by simp
      moreover have "snd x = [] @ snd a \<and> fst a = rev [] @ fst x" using True by simp
      ultimately show ?thesis by blast
    next
      case False
      show ?thesis
      proof (cases "length (snd m0) < length (snd x)")
        case True
        with Cons False "1.prems" have in': "(a, m) \<in> set (finditer_from r m0)"
          by (auto simp add: finditer_from.simps[of r x])
        from "1.IH"(2)[OF Cons True in'] obtain k
          where k: "m \<in> set (rmatch r a)" "snd m0 = k @ snd a" "fst a = rev k @ fst m0"
          by blast
        have "m0 \<in> set (rmatch r x)" using Cons by simp
        from rmatch_split[OF this] obtain k0 where "snd x = k0 @ snd m0" "fst m0 = rev k0 @ fst x"
          by blast
        with k have "snd x = (k0 @ k) @ snd a \<and> fst a = rev (k0 @ k) @ fst x" by simp
        with k(1) show ?thesis by blast
      next
        case nlt: False
        show ?thesis
        proof (cases "snd x")
          case Nil
          with Cons False nlt "1.prems" show ?thesis
            by (auto simp add: finditer_from.simps[of r x])
        next
          case Cons': (Cons c cs)
          with Cons False nlt "1.prems" have "(a, m) \<in> set (finditer_from r (c # fst x, cs))"
            by (auto simp add: finditer_from.simps[of r x])
          from "1.IH"(3)[OF Cons nlt Cons' this] step[OF Cons'] show ?thesis by simp
        qed
      qed
    qed
  qed
qed

section \<open>The lexical stripper and line numbers\<close>

text \<open>
  Claim C1 says that stripping leaves the number of newline characters unchanged. The
  locator relies on that: it counts \<open>function_start\<close> and \<open>function_end\<close> on the
  stripped text and reports them as lines of the file. The strippers do not keep the
  newlines: a block comment is replaced by the empty string, and a literal by a
  placeholder, together with the newlines inside. On the four-line text
  \<open>/*\<close>, \<open>*/\<close>, \<open>int f(){\<close>, \<open>}\<close> both strippers return two of the three newlines,
  and the function that is written on lines 3 to 4 is reported on lines 2 to 3.
\<close>

theorem block_comment_shifts_line_numbers:
  "count_list (''/*'' @ [NL] @ ''*/'' @ [NL] @ ''int f(){'' @ [NL] @ ''}'') NL = 3
   \<and> count_list (cc_strip_comments_and_strings (''/*'' @ [NL] @ ''*/'' @ [NL] @ ''int f(){'' @ [NL] @ ''}'')) NL = 2
   \<and> count_list (strip_comments_and_strings (''/*'' @ [NL] @ ''*/'' @ [NL] @ ''int f(){'' @ [NL] @ ''}'')) NL = 2
   \<and> take 8 (drop 6 (''/*'' @ [NL] @ ''*/'' @ [NL] @ ''int f(){'' @ [NL] @ ''}'')) = ''int f(){''
   \<and> count_list (take 6 (''/*'' @ [NL] @ ''*/'' @ [NL] @ ''int f(){'' @ [NL] @ ''}'')) NL + 1 = 3
   \<and> (''/*'' @ [NL] @ ''*/'' @ [NL] @ ''int f(){'' @ [NL] @ ''}'') ! 15 = CHR ''}''
   \<and> count_list (take 15 (''/*'' @ [NL] @ ''*/'' @ [NL] @ ''int f(){'' @ [NL] @ ''}'')) NL + 1 = 4
   \<and> find_functions_in_text ''f.c'' (''/*'' @ [NL] @ ''*/'' @ [NL] @ ''int f(){'' @ [NL] @ ''}'')
       = [\<lparr>filename = ''f.c'', function_start = 2, function_end = 3, cc = 1\<rparr>]"
  by code_simp

section \<open>The decision-point counter\<close>

lemma rmatch_Chr:
  "rmatch (Chr c) (b, a) = (case a of [] \<Rightarrow> [] | d # ds \<Rightarrow> if d = c then [(d # b, ds)] else [])"
  by (cases a) (simp_all add: Chr_def)

lemma rmatch_Lit:
  "rmatch (Lit kw) (b, a) = (if prefix kw a then [(rev kw @ b, drop (length kw) a)] else [])"
proof (induction kw arbitrary: b a)
  case Nil
  then show ?case by simp
next
  case (Cons c cs)
  show ?case
  proof (cases a)
    case Nil
    then show ?thesis by (simp add: rmatch_Chr)
  next
    case (Cons d ds)
    then show ?thesis by (simp add: rmatch_Chr Cons.IH)
  qed
qed

lemma rmatch_keyword:
  "rmatch (keyword kw) (b, a) =
     (if boundary (b, a) \<and> prefix kw a \<and> boundary (rev kw @ b, drop (length kw) a)
      then [(rev kw @ b, drop (length kw) a)] else [])"
  by (simp add: keyword_def rmatch_Lit)

lemma keyword_match_iff_word_at:
  assumes kw: "kw \<noteq> []" "\<forall>c\<in>set kw. is_word c"
  shows "(boundary (b, a) \<and> prefix kw a \<and> boundary (rev kw @ b, drop (length kw) a))
         \<longleftrightarrow> word_at kw (rev b @ a) (length b)"
proof (cases "prefix kw a")
  case False
  then have "take (length kw) a \<noteq> kw"
    by (metis take_is_prefix)
  with False show ?thesis by (simp add: word_at_def)
next
  case True
  then obtain rest where a: "a = kw @ rest" by (auto simp: prefix_def)
  from kw obtain k ks where k: "kw = k # ks" by (cases kw) auto
  have ak: "a = k # (ks @ rest)" and wk: "is_word k" using a k kw(2) by simp_all
  from kw(1) obtain ks' l where kl: "kw = ks' @ [l]" by (metis rev_exhaust)
  have rk: "rev kw @ b = l # (rev ks' @ b)" and wl: "is_word l" using kl kw(2) by simp_all
  have dr: "drop (length kw) a = rest" using a by simp
  have b1: "boundary (b, a) \<longleftrightarrow> \<not> (0 < length b \<and> is_word ((rev b @ a) ! (length b - 1)))"
  proof (cases b)
    case Nil
    with ak wk show ?thesis by (simp add: boundary_def)
  next
    case (Cons p ps)
    have "(rev b @ a) ! (length b - 1) = p"
      using Cons by (simp add: nth_append)
    with Cons ak wk show ?thesis by (simp add: boundary_def)
  qed
  have b2: "boundary (rev kw @ b, drop (length kw) a)
        \<longleftrightarrow> \<not> (length b + length kw < length (rev b @ a)
               \<and> is_word ((rev b @ a) ! (length b + length kw)))"
  proof (cases rest)
    case Nil
    have "length (rev b @ a) = length b + length kw" using a Nil by simp
    with Nil wl show ?thesis by (simp add: boundary_def rk dr)
  next
    case (Cons q qs)
    have "(rev b @ a) ! (length b + length kw) = q"
      using a Cons by (simp add: nth_append)
    moreover have "length b + length kw < length (rev b @ a)" using a Cons by simp
    ultimately show ?thesis using Cons wl by (simp add: boundary_def rk dr)
  qed
  have "take (length kw) (drop (length b) (rev b @ a)) = kw"
    using a by simp
  with True b1 b2 show ?thesis by (simp add: word_at_def)
qed

lemma keyword_rmatch_word_at:
  assumes kw: "kw \<noteq> []" "\<forall>c\<in>set kw. is_word c"
  shows "rmatch (keyword kw) (b, a) =
     (if word_at kw (rev b @ a) (length b) then [(rev kw @ b, drop (length kw) a)] else [])"
  using keyword_match_iff_word_at[OF kw, of b a] by (simp add: rmatch_keyword)

lemma word_at_inside:
  assumes kw: "\<forall>c\<in>set kw. is_word c"
    and at: "take (length kw) (drop i text) = kw"
    and j: "i < j" "j < i + length kw"
  shows "\<not> word_at kw text j"
proof -
  have "length (take (length kw) (drop i text)) = length kw" using at by simp
  then have "length kw \<le> length text - i" by simp
  with j have jl: "j - 1 < length text" by simp
  have "text ! (j - 1) = drop i text ! (j - 1 - i)" using j jl by simp
  also have "\<dots> = take (length kw) (drop i text) ! (j - 1 - i)" using j by simp
  also have "\<dots> = kw ! (j - 1 - i)" using at by simp
  finally have "text ! (j - 1) \<in> set kw" using j by simp
  with kw have "is_word (text ! (j - 1))" by blast
  with j show ?thesis by (simp add: word_at_def)
qed

lemma filter_upt_skip:
  assumes "i \<le> j" "j \<le> n" "\<And>k. i \<le> k \<Longrightarrow> k < j \<Longrightarrow> \<not> P k"
  shows "filter P [i..<n] = filter P [j..<n]"
proof -
  have "[i..<n] = [i..<j] @ [j..<n]" using assms(1,2) by (metis le_Suc_ex upt_add_eq_append)
  moreover have "filter P [i..<j] = []" using assms(3) by (auto simp: filter_empty_conv)
  ultimately show ?thesis by simp
qed

lemma finditer_from_keyword_count:
  assumes kw: "kw \<noteq> []" "\<forall>c\<in>set kw. is_word c"
  shows "length (finditer_from (keyword kw) (b, a))
         = length (filter (word_at kw (rev b @ a)) [length b..<length (rev b @ a)])"
proof (induction a arbitrary: b rule: length_induct)
  case (1 a)
  let ?W = "word_at kw (rev b @ a)"
  show ?case
  proof (cases "?W (length b)")
    case True
    then have pre: "take (length kw) a = kw" by (simp add: word_at_def)
    then have "length (take (length kw) a) = length kw" by simp
    then have len: "length kw \<le> length a" by simp
    have a: "a = kw @ drop (length kw) a" using pre by (metis append_take_drop_id)
    have shorter: "length (drop (length kw) a) < length a"
      using kw(1) len by (cases kw) auto
    have m: "rmatch (keyword kw) (b, a) = [(rev kw @ b, drop (length kw) a)]"
      using True by (simp add: keyword_rmatch_word_at[OF kw])
    have same: "rev (rev kw @ b) @ drop (length kw) a = rev b @ a"
      using a by (metis append.assoc rev_append rev_rev_ident)
    have "finditer_from (keyword kw) (b, a) =
            ((b, a), (rev kw @ b, drop (length kw) a))
            # finditer_from (keyword kw) (rev kw @ b, drop (length kw) a)"
      using m shorter by (simp add: finditer_from.simps[of "keyword kw" "(b, a)"])
    moreover have "length (finditer_from (keyword kw) (rev kw @ b, drop (length kw) a))
        = length (filter ?W [length b + length kw..<length (rev b @ a)])"
    proof -
      have "length (finditer_from (keyword kw) (rev kw @ b, drop (length kw) a))
          = length (filter (word_at kw (rev (rev kw @ b) @ drop (length kw) a))
              [length (rev kw @ b)..<length (rev (rev kw @ b) @ drop (length kw) a)])"
        using "1.IH" shorter by blast
      moreover have "length (rev kw @ b) = length b + length kw" by simp
      ultimately show ?thesis by (simp only: same)
    qed
    moreover have "filter ?W [length b..<length (rev b @ a)]
        = length b # filter ?W [length b + length kw..<length (rev b @ a)]"
    proof -
      have "a \<noteq> []" using shorter by auto
      then have lt: "length b < length (rev b @ a)" by simp
      have "filter ?W [Suc (length b)..<length (rev b @ a)]
            = filter ?W [length b + length kw..<length (rev b @ a)]"
      proof (rule filter_upt_skip)
        show "Suc (length b) \<le> length b + length kw" using kw(1) by (cases kw) auto
        show "length b + length kw \<le> length (rev b @ a)" using len by simp
        fix k assume "Suc (length b) \<le> k" "k < length b + length kw"
        then show "\<not> ?W k"
          using word_at_inside[OF kw(2), of "length b" "rev b @ a" k] pre by simp
      qed
      with True upt_conv_Cons[OF lt] show ?thesis
        by (simp only: filter.simps if_True)
    qed
    ultimately show ?thesis by simp
  next
    case False
    then have m: "rmatch (keyword kw) (b, a) = []"
      by (simp add: keyword_rmatch_word_at[OF kw])
    show ?thesis
    proof (cases a)
      case Nil
      with m show ?thesis by (simp add: finditer_from.simps[of "keyword kw" "(b, [])"])
    next
      case (Cons c cs)
      have "finditer_from (keyword kw) (b, a) = finditer_from (keyword kw) (c # b, cs)"
        using m Cons by (simp add: finditer_from.simps[of "keyword kw" "(b, c # cs)"])
      moreover have "length (finditer_from (keyword kw) (c # b, cs))
          = length (filter ?W [Suc (length b)..<length (rev b @ a)])"
        using "1.IH" Cons by simp
      moreover have "filter ?W [length b..<length (rev b @ a)]
          = filter ?W [Suc (length b)..<length (rev b @ a)]"
      proof -
        have lt: "length b < length (rev b @ a)" using Cons by simp
        from upt_conv_Cons[OF lt] False show ?thesis
          by (simp only: filter.simps if_False)
      qed
      ultimately show ?thesis by simp
    qed
  qed
qed

lemma findall_keyword_count:
  assumes "kw \<noteq> []" "\<forall>c\<in>set kw. is_word c"
  shows "length (finditer (keyword kw) text) = whole_word_occurrences kw text"
  using finditer_from_keyword_count[OF assms, of "[]" "text"]
  by (simp add: finditer_def whole_word_occurrences_def)

lemma keywords_are_words:
  "\<forall>c\<in>set ''if''. is_word c" "\<forall>c\<in>set ''for''. is_word c" "\<forall>c\<in>set ''while''. is_word c"
  "\<forall>c\<in>set ''case''. is_word c" "\<forall>c\<in>set ''catch''. is_word c"
  by (simp_all add: is_word_def)


text \<open>
  \<open>str.count\<close> counts from the left and without overlap. For a pattern of two equal
  characters that is, in every text, the number of pairs that the runs of the character
  hold side by side; and it is the number of indices at which the pattern is written
  as long as the character is never written three times in a row.
\<close>

lemma count_sub_replicate:
  "count_sub [c, c] (replicate n c @ t) = n div 2 + count_sub [c, c] (replicate (n mod 2) c @ t)"
proof (induction n rule: less_induct)
  case (less n)
  show ?case
  proof (cases "n < 2")
    case True
    then have "n = 0 \<or> n = 1" by arith
    then show ?thesis by auto
  next
    case False
    then obtain k where n: "n = Suc (Suc k)" by (metis not_less add_2_eq_Suc le_Suc_ex)
    have "count_sub [c, c] (c # c # (replicate k c @ t)) = 1 + count_sub [c, c] (replicate k c @ t)"
      by (subst count_sub.simps) simp
    moreover have "count_sub [c, c] (replicate k c @ t)
        = k div 2 + count_sub [c, c] (replicate (k mod 2) c @ t)"
      using less.IH[of k] n by simp
    ultimately show ?thesis using n by simp
  qed
qed

lemma count_sub_skip:
  assumes "x \<noteq> c"
  shows "count_sub [c, c] (replicate (n mod 2) c @ x # xs) = count_sub [c, c] xs"
proof -
  have a: "count_sub [c, c] (x # xs) = count_sub [c, c] xs"
    using assms by (subst count_sub.simps) simp
  have b: "count_sub [c, c] (c # x # xs) = count_sub [c, c] (x # xs)"
    using assms by (subst count_sub.simps) simp
  have "n mod 2 = 0 \<or> n mod 2 = 1" by arith
  then show ?thesis using a b by auto
qed

lemma runs_count_sub:
  "sum_list (map (\<lambda>n. n div 2) (runs c s n)) = count_sub [c, c] (replicate n c @ s)"
proof (induction s arbitrary: n)
  case Nil
  have "count_sub [c, c] (replicate (n mod 2) c) = 0"
  proof -
    have "n mod 2 = 0 \<or> n mod 2 = 1" by arith
    moreover have "count_sub [c, c] [] = 0" by (subst count_sub.simps) simp
    moreover have "count_sub [c, c] [c] = 0" by (subst count_sub.simps) (simp add: \<open>count_sub [c, c] [] = 0\<close>)
    ultimately show ?thesis by auto
  qed
  with count_sub_replicate[of c n "[]"] show ?case by simp
next
  case (Cons x xs)
  show ?case
  proof (cases "x = c")
    case True
    have "replicate (Suc n) c @ xs = replicate n c @ c # xs"
      by (simp add: replicate_append_same)
    then have "count_sub [c, c] (replicate (Suc n) c @ xs)
        = count_sub [c, c] (replicate n c @ c # xs)"
      by (rule arg_cong)
    moreover have "runs c (x # xs) n = runs c xs (Suc n)" using True by simp
    ultimately show ?thesis using Cons.IH[of "Suc n"] True by (simp only:)
  next
    case False
    have "count_sub [c, c] (replicate n c @ x # xs) = n div 2 + count_sub [c, c] xs"
      using count_sub_replicate[of c n "x # xs"] count_sub_skip[OF False, of n xs] by simp
    with Cons.IH[of 0] False show ?thesis by simp
  qed
qed

lemma count_sub_pairs_in_runs: "count_sub [c, c] s = pairs_in_runs c s"
  using runs_count_sub[of c s 0] by (simp add: pairs_in_runs_def)

lemma occurrences_Cons:
  assumes "sub \<noteq> []"
  shows "occurrences sub (x # t) = (if prefix sub (x # t) then 1 else 0) + occurrences sub t"
proof -
  have "[0..<Suc (length t)] = 0 # [Suc 0..<Suc (length t)]"
    by (rule upt_conv_Cons) simp
  moreover have "length (x # t) = Suc (length t)" by simp
  ultimately have upt: "[0..<length (x # t)] = 0 # map Suc [0..<length t]"
    by (simp only: map_Suc_upt)
  have p0: "(take (length sub) (drop 0 (x # t)) = sub) = prefix sub (x # t)"
    by (metis drop0 take_is_prefix prefix_def append_eq_conv_conj)
  have "filter (\<lambda>i. take (length sub) (drop i (x # t)) = sub) (map Suc [0..<length t])
      = map Suc (filter (\<lambda>i. take (length sub) (drop i t) = sub) [0..<length t])"
    by (simp add: filter_map comp_def)
  then show ?thesis
    unfolding occurrences_def upt using p0 by simp
qed

lemma occurrences_Nil: "sub \<noteq> [] \<Longrightarrow> occurrences sub [] = 0"
  by (simp add: occurrences_def)

lemma count_sub_pair:
  "\<not> sublist [c, c, c] s \<Longrightarrow> count_sub [c, c] s = occurrences [c, c] s"
proof (induction s rule: length_induct)
  case (1 s)
  show ?case
  proof (cases s)
    case Nil
    then show ?thesis by (simp add: count_sub.simps[of "[c, c]" "[]"] occurrences_Nil)
  next
    case (Cons x t)
    have no_t: "\<not> sublist [c, c, c] t"
      using "1.prems" Cons by (meson sublist_Cons_right)
    show ?thesis
    proof (cases "prefix [c, c] s")
      case True
      then obtain t' where s: "s = c # c # t'" by (auto simp: prefix_def)
      have no_t': "\<not> sublist [c, c, c] t'"
        using "1.prems" s by (meson sublist_Cons_right)
      have "\<not> prefix [c, c] (c # t')"
      proof
        assume "prefix [c, c] (c # t')"
        then obtain u where "t' = c # u" by (auto simp: prefix_def)
        with s have "s = [] @ [c, c, c] @ u" by simp
        then have "sublist [c, c, c] s" unfolding sublist_def by blast
        with "1.prems" show False by simp
      qed
      then have "occurrences [c, c] s = 1 + occurrences [c, c] t'"
        using True s by (simp add: occurrences_Cons)
      moreover have "count_sub [c, c] s = 1 + count_sub [c, c] t'"
        using True s by (simp add: count_sub.simps[of "[c, c]" "c # c # t'"])
      moreover have "count_sub [c, c] t' = occurrences [c, c] t'"
        using "1.IH" s no_t' by simp
      ultimately show ?thesis by simp
    next
      case False
      then have "occurrences [c, c] s = occurrences [c, c] t"
        using Cons by (simp add: occurrences_Cons)
      moreover have "count_sub [c, c] s = count_sub [c, c] t"
      proof -
        from False Cons have "\<not> prefix [c, c] (x # t)" by simp
        then have "count_sub [c, c] (x # t) = count_sub [c, c] t"
          by (subst count_sub.simps) (simp only: list.simps if_False list.case)
        with Cons show ?thesis by simp
      qed
      moreover have "count_sub [c, c] t = occurrences [c, c] t"
        using "1.IH" Cons no_t by simp
      ultimately show ?thesis by simp
    qed
  qed
qed

text \<open>
  Claim C2, as the code has it. The claim counts the \<open>&&\<close> and \<open>||\<close> substrings of the
  body. The code counts them with \<open>str.count\<close>, without overlap: a run of \<open>n\<close>
  characters \<open>&\<close> counts \<open>n div 2\<close> times, so \<open>&&&\<close> counts once, though \<open>&&\<close> is
  written at two places in it. With that reading of the two operators the claim holds
  for every body: the counter returns 1 plus the whole-word occurrences of \<open>if\<close>,
  \<open>for\<close>, \<open>while\<close>, \<open>case\<close> and \<open>catch\<close>, plus the number of \<open>?\<close> characters, plus
  the pairs in the runs of \<open>&\<close> and of \<open>|\<close>; these are the places where \<open>&&\<close> and
  \<open>||\<close> are written when no \<open>&&&\<close> or \<open>|||\<close> occurs. The result is at least 1, it is
  1 on the empty body, and the \<open>if\<close> inside \<open>ifdef\<close> is not counted.
\<close>

theorem cyclomatic_counts_decision_points:
  "cyclomatic body
     = 1 + whole_word_occurrences ''if'' body + whole_word_occurrences ''for'' body
         + whole_word_occurrences ''while'' body + whole_word_occurrences ''case'' body
         + whole_word_occurrences ''catch'' body
         + count_list body CHR ''?''
         + pairs_in_runs CHR ''&'' body + pairs_in_runs CHR ''|'' body
   \<and> (\<not> sublist ''&&&'' body \<longrightarrow> pairs_in_runs CHR ''&'' body = occurrences ''&&'' body)
   \<and> (\<not> sublist ''|||'' body \<longrightarrow> pairs_in_runs CHR ''|'' body = occurrences ''||'' body)
   \<and> 1 \<le> cyclomatic body
   \<and> cyclomatic [] = 1
   \<and> cyclomatic ''ifdef'' = 1"
proof (intro conjI impI)
  show "cyclomatic body
     = 1 + whole_word_occurrences ''if'' body + whole_word_occurrences ''for'' body
         + whole_word_occurrences ''while'' body + whole_word_occurrences ''case'' body
         + whole_word_occurrences ''catch'' body
         + count_list body CHR ''?''
         + pairs_in_runs CHR ''&'' body + pairs_in_runs CHR ''|'' body"
    using count_sub_pairs_in_runs[of "CHR ''&''" body] count_sub_pairs_in_runs[of "CHR ''|''" body]
    by (simp add: cyclomatic_def decisions_def findall_keyword_count keywords_are_words)
  show "pairs_in_runs CHR ''&'' body = occurrences ''&&'' body" if "\<not> sublist ''&&&'' body"
    using count_sub_pair[OF that] count_sub_pairs_in_runs[of "CHR ''&''" body] by simp
  show "pairs_in_runs CHR ''|'' body = occurrences ''||'' body" if "\<not> sublist ''|||'' body"
    using count_sub_pair[OF that] count_sub_pairs_in_runs[of "CHR ''|''" body] by simp
  show "1 \<le> cyclomatic body" by (simp add: cyclomatic_def)
  show "cyclomatic [] = 1" by code_simp
  show "cyclomatic ''ifdef'' = 1" by code_simp
qed

theorem cyclomatic_counts_decision_points_witness:
  "\<not> sublist ''&&&'' ''if (a && b) x = c ? d : e;''
   \<and> \<not> sublist ''|||'' ''if (a && b) x = c ? d : e;''
   \<and> pairs_in_runs CHR ''&'' ''if (a && b) x = c ? d : e;'' = occurrences ''&&'' ''if (a && b) x = c ? d : e;''
   \<and> pairs_in_runs CHR ''|'' ''if (a && b) x = c ? d : e;'' = occurrences ''||'' ''if (a && b) x = c ? d : e;''
   \<and> cyclomatic ''if (a && b) x = c ? d : e;'' = 4"
proof -
  note h = cyclomatic_counts_decision_points[of "''if (a && b) x = c ? d : e;''"]
  have a: "\<not> sublist ''&&&'' ''if (a && b) x = c ? d : e;''" by code_simp
  have b: "\<not> sublist ''|||'' ''if (a && b) x = c ? d : e;''" by code_simp
  note c = h[THEN conjunct2, THEN conjunct1, THEN mp, OF a]
  note d = h[THEN conjunct2, THEN conjunct2, THEN conjunct1, THEN mp, OF b]
  have "1 + whole_word_occurrences ''if'' ''if (a && b) x = c ? d : e;''
          + whole_word_occurrences ''for'' ''if (a && b) x = c ? d : e;''
          + whole_word_occurrences ''while'' ''if (a && b) x = c ? d : e;''
          + whole_word_occurrences ''case'' ''if (a && b) x = c ? d : e;''
          + whole_word_occurrences ''catch'' ''if (a && b) x = c ? d : e;''
          + count_list ''if (a && b) x = c ? d : e;'' CHR ''?''
          + pairs_in_runs CHR ''&'' ''if (a && b) x = c ? d : e;''
          + pairs_in_runs CHR ''|'' ''if (a && b) x = c ? d : e;'' = 4"
    by code_simp
  with h[THEN conjunct1] have e: "cyclomatic ''if (a && b) x = c ? d : e;'' = 4" by simp
  from a b c d e show ?thesis by (intro conjI)
qed

text \<open>
  The claim as stated, with the places where \<open>&&\<close> is written, fails on \<open>a&&&b\<close>:
  the counter returns 2, and 1 plus the number of places is 3.
\<close>

theorem cyclomatic_overlap_counterexample:
  "cyclomatic ''a&&&b'' = 2
   \<and> 1 + whole_word_occurrences ''if'' ''a&&&b'' + whole_word_occurrences ''for'' ''a&&&b''
        + whole_word_occurrences ''while'' ''a&&&b'' + whole_word_occurrences ''case'' ''a&&&b''
        + whole_word_occurrences ''catch'' ''a&&&b''
        + count_list ''a&&&b'' CHR ''?'' + occurrences ''&&'' ''a&&&b'' + occurrences ''||'' ''a&&&b'' = 3"
  by code_simp

section \<open>The function-boundary locator\<close>

lemma brace_scan_Some:
  "brace_scan s idx b = Some c \<Longrightarrow>
   idx \<le> c \<and> c < idx + length s \<and> b + brace_balance (take (c - idx + 1) s) = 0"
proof (induction s arbitrary: idx b)
  case Nil
  then show ?case by simp
next
  case (Cons ch rest)
  have tk: "take (c - idx + 1) (ch # rest) = ch # take (c - (idx + 1) + 1) rest" if "idx + 1 \<le> c"
  proof -
    from that have "c - idx = Suc (c - Suc idx)" by arith
    then show ?thesis by simp
  qed
  show ?case
  proof (cases "ch = CHR ''{''")
    case True
    with Cons.prems have "brace_scan rest (idx + 1) (b + 1) = Some c" by simp
    from Cons.IH[OF this] tk True show ?thesis
      by (simp add: brace_balance_def)
  next
    case nopen: False
    show ?thesis
    proof (cases "ch = CHR ''}''")
      case True
      show ?thesis
      proof (cases "b - 1 = 0")
        case True
        with \<open>ch = CHR ''}''\<close> Cons.prems have "c = idx" by simp
        with True \<open>ch = CHR ''}''\<close> show ?thesis by (simp add: brace_balance_def)
      next
        case False
        with True Cons.prems have "brace_scan rest (idx + 1) (b - 1) = Some c" by simp
        from Cons.IH[OF this] tk True show ?thesis
          by (simp add: brace_balance_def)
      qed
    next
      case False
      with nopen Cons.prems have "brace_scan rest (idx + 1) b = Some c" by simp
      from Cons.IH[OF this] tk False nopen show ?thesis
        by (simp add: brace_balance_def)
    qed
  qed
qed

lemma count_list_take_mono:
  "i \<le> j \<Longrightarrow> count_list (take i xs) c \<le> count_list (take j xs) c"
proof -
  assume "i \<le> j"
  then have "take j xs = take i xs @ take (j - i) (drop i xs)"
    by (metis le_add_diff_inverse take_add)
  then show ?thesis by simp
qed

lemma finditer_func_pattern_nonempty:
  assumes "(s, e) \<in> set (finditer func_pattern code)"
  shows "s < e"
proof -
  from assms obtain a m where am: "(a, m) \<in> set (finditer_from func_pattern ([], code))"
    and s: "s = length (fst a)" and e: "e = length (fst m)"
    by (auto simp: finditer_def)
  from finditer_from_matches[OF am] have m: "m \<in> set (rmatch func_pattern a)" by simp
  then have "length (snd m) < length (snd a)"
    unfolding func_pattern_def by (rule rmatch_Cls_first)
  moreover from rmatch_split[OF m] obtain k where "snd a = k @ snd m" "fst m = rev k @ fst a"
    by blast
  ultimately show ?thesis using s e by simp
qed

lemma emit_functions_map_filter:
  "emit_functions f code ms = List.map_filter (function_of_match f code) ms"
  by (induction ms) (simp_all add: List.map_filter_simps split: option.splits)

lemma function_of_match_lines:
  assumes "function_of_match f code (s, e) = Some r" and "s < e"
  shows "function_start r \<le> function_end r"
proof -
  from assms(1) obtain c where c: "brace_scan (drop (e - 1) code) (e - 1) 0 = Some c"
    and r: "function_start r = count_list (take s code) NL + 1"
           "function_end r = count_list (take c code) NL + 1"
    by (auto simp: function_of_match_def Let_def split: option.splits)
  from brace_scan_Some[OF c] have "e - 1 \<le> c" by simp
  with assms(2) have "s \<le> c" by simp
  from count_list_take_mono[OF this] r show ?thesis by simp
qed

lemma function_of_match_balanced:
  assumes "function_of_match f code (s, e) = Some r"
  shows "\<not> never_balanced code (e - 1)"
proof -
  from assms obtain c where c: "brace_scan (drop (e - 1) code) (e - 1) 0 = Some c"
    by (auto simp: function_of_match_def Let_def split: option.splits)
  from brace_scan_Some[OF c]
  have b: "e - 1 \<le> c" "c < e - 1 + length (drop (e - 1) code)"
    "brace_balance (take (c - (e - 1) + 1) (drop (e - 1) code)) = 0"
    by simp_all
  from b(1,2) have "c \<in> set [e - 1..<length code]" by auto
  moreover from b(1) have "c + 1 - (e - 1) = c - (e - 1) + 1" by arith
  with b(3) have "balance_at code (e - 1) c = 0"
    by (simp only: balance_at_def)
  ultimately show ?thesis
    by (auto simp: never_balanced_def list_all_iff)
qed


text \<open>The file path is only copied into the records.\<close>

lemma function_of_match_filename:
  "function_of_match file_path code m
     = map_option (filename_update (\<lambda>_. file_path)) (function_of_match [] code m)"
  by (cases m) (simp add: function_of_match_def Let_def split: option.splits)

lemma emit_functions_filename:
  "emit_functions file_path code ms
     = map (filename_update (\<lambda>_. file_path)) (emit_functions [] code ms)"
proof (induction ms)
  case Nil
  then show ?case by simp
next
  case (Cons m ms)
  show ?case
    using Cons.IH function_of_match_filename[of file_path code m]
    by (cases "function_of_match [] code m") simp_all
qed

lemma find_functions_in_text_filename:
  "find_functions_in_text file_path content
     = map (filename_update (\<lambda>_. file_path)) (find_functions_in_text [] content)"
  using emit_functions_filename[of file_path]
  by (simp add: find_functions_in_text_def Let_def)

text \<open>
  Claim C3. Every record that the locator emits has \<open>function_end \<ge> function_start\<close>.
  The records are those of the header matches whose brace scan finds a closing brace,
  in the order of the matches; a match whose running brace balance is not zero at any
  index up to the end of the text gives no record. The locator is a total function
  into lists of records: there is no error result.
\<close>

theorem function_records_well_formed:
  "(\<forall>r \<in> set (find_functions_in_text f content). function_start r \<le> function_end r)
   \<and> find_functions_in_text f content
       = List.map_filter (function_of_match f (cc_strip_comments_and_strings content))
           (finditer func_pattern (cc_strip_comments_and_strings content))
   \<and> (\<forall>m \<in> set (finditer func_pattern code).
         never_balanced code (snd m - 1) \<longrightarrow> function_of_match f code m = None)"
proof (intro conjI ballI impI)
  fix r assume "r \<in> set (find_functions_in_text f content)"
  then obtain m where m: "m \<in> set (finditer func_pattern (cc_strip_comments_and_strings content))"
    and r: "function_of_match f (cc_strip_comments_and_strings content) m = Some r"
    by (auto simp: find_functions_in_text_def emit_functions_map_filter
        List.map_filter_def Let_def)
  obtain s e where se: "m = (s, e)" by (cases m)
  from m se have "s < e" by (simp add: finditer_func_pattern_nonempty)
  with r se show "function_start r \<le> function_end r"
    by (simp add: function_of_match_lines)
next
  show "find_functions_in_text f content
       = List.map_filter (function_of_match f (cc_strip_comments_and_strings content))
           (finditer func_pattern (cc_strip_comments_and_strings content))"
    by (simp add: find_functions_in_text_def emit_functions_map_filter Let_def)
next
  fix m assume "m \<in> set (finditer func_pattern code)" and nb: "never_balanced code (snd m - 1)"
  obtain s e where se: "m = (s, e)" by (cases m)
  show "function_of_match f code m = None"
  proof (cases "function_of_match f code m")
    case None
    then show ?thesis .
  next
    case (Some r)
    with se function_of_match_balanced[of f code s e r] nb show ?thesis by simp
  qed
qed

theorem function_records_well_formed_witness:
  "(0, 8) \<in> set (finditer func_pattern ''int f(){'')
   \<and> never_balanced ''int f(){'' (snd (0, 8) - 1)
   \<and> function_of_match ''f.c'' ''int f(){'' (0, 8) = None
   \<and> \<lparr>filename = ''f.c'', function_start = 1, function_end = 2, cc = 1\<rparr>
       \<in> set (find_functions_in_text ''f.c'' (''int f(){'' @ [NL] @ ''}''))
   \<and> function_start \<lparr>filename = ''f.c'', function_start = 1, function_end = 2, cc = 1\<rparr>
       \<le> function_end \<lparr>filename = ''f.c'', function_start = 1, function_end = 2, cc = 1\<rparr>"
proof -
  have a: "(0, 8) \<in> set (finditer func_pattern ''int f(){'')"
    by code_simp
  have b: "never_balanced ''int f(){'' (snd (0, 8) - 1)"
    by code_simp
  note c = function_records_well_formed[of "''f.c''" "[]" "''int f(){''",
      THEN conjunct2, THEN conjunct2, THEN bspec, OF a, THEN mp, OF b]
  have d: "\<lparr>filename = ''f.c'', function_start = 1, function_end = 2, cc = 1\<rparr>
       \<in> set (find_functions_in_text ''f.c'' (''int f(){'' @ [NL] @ ''}''))"
    by code_simp
  note e = function_records_well_formed[of "''f.c''" "''int f(){'' @ [NL] @ ''}''" "[]",
      THEN conjunct1, THEN bspec, OF d]
  from a b c d e show ?thesis by (intro conjI)
qed

text \<open>
  Claim C4. On the one-line text \<open>int f(int x){ if (x) return 1; else return 0; }\<close> the
  locator emits exactly one record, with start line 1, end line 1 and cyclomatic
  complexity 2.
\<close>

theorem one_line_function_record:
  "find_functions_in_text file_path ''int f(int x){ if (x) return 1; else return 0; }''
     = [\<lparr>filename = file_path, function_start = 1, function_end = 1, cc = 2\<rparr>]"
proof -
  have "find_functions_in_text [] ''int f(int x){ if (x) return 1; else return 0; }''
     = [\<lparr>filename = [], function_start = 1, function_end = 1, cc = 2\<rparr>]"
    by code_simp
  then show ?thesis
    by (simp add: find_functions_in_text_filename[of file_path])
qed

theorem one_line_function_record_witness:
  "map cc (find_functions_in_text ''f.c'' ''int f(int x){ if (x) return 1; else return 0; }'')
     = [2]"
  by (simp add: one_line_function_record)

section \<open>Project aggregation of the cyclomatic complexity\<close>

lemma add_records_totals:
  "add_records rs m = m\<lparr>details := details m @ rs, total_cc := total_cc m + sum_list (map cc rs)\<rparr>"
  by (induction rs arbitrary: m) simp_all

lemma account_file_totals:
  "account_file (handle_file path rr) m =
     m\<lparr>details := details m @ records_of (path, rr),
       total_cc := total_cc m + sum_list (map cc (records_of (path, rr))),
       files_count := files_count m + (if records_of (path, rr) \<noteq> [] then 1 else 0)\<rparr>"
  by (cases "handle_file path rr"; cases "the (handle_file path rr)")
     (simp_all add: account_file_def records_of_def add_records_totals Let_def)

lemma walk_files_totals:
  "walk_files p entries m =
     m\<lparr>details := details m @ concat (map records_of (selected_files p (Directory entries))),
       total_cc := total_cc m
         + sum_list (map cc (concat (map records_of (selected_files p (Directory entries))))),
       files_count := files_count m
         + length (filter (\<lambda>f. records_of f \<noteq> []) (selected_files p (Directory entries)))\<rparr>"
proof (induction entries arbitrary: m)
  case Nil
  show ?case by (simp add: selected_files_def)
next
  case (Cons e entries)
  obtain path nm rr where e: "e = (path, nm, rr)" by (cases e)
  have sel: "selected_files p (Directory ((path, nm, rr) # entries)) =
      (if has_extension (src_file_extensions p) nm \<and> \<not> ignored (ignore p) nm
       then (path, rr) # selected_files p (Directory entries)
       else selected_files p (Directory entries))"
    by (simp add: selected_files_def)
  show ?case
    unfolding e
    by (cases "has_extension (src_file_extensions p) nm"; cases "ignored (ignore p) nm")
       (simp_all add: sel Cons.IH account_file_totals)
qed

lemma records_of_unreadable:
  "records_of (path, OpenFails) = []" "records_of (path, Utf8Fails None) = []"
  by (simp_all add: records_of_def handle_file_def find_functions_in_file_def
      read_file_with_fallback_def)

lemma records_of_readable:
  "records_of (path, Utf8 content) = find_functions_in_text path content"
  "records_of (path, Utf8Fails (Some content)) = find_functions_in_text path content"
  by (simp_all add: records_of_def handle_file_def find_functions_in_file_def
      read_file_with_fallback_def)


text \<open>
  Claim C10. In the aggregation of a project, \<open>files_count\<close> is the number of matching
  files that yielded at least one record; the details are the records of the matching
  files, in order; and \<open>total_cc\<close> is the sum of the \<open>cc\<close> values of the details. A
  matching file that cannot be read, or that is read and has no function, yields no
  record, so it adds nothing to any of the three.
\<close>

theorem files_count_counts_files_with_records:
  "(get_cc_metrics p fs = Inr m \<longrightarrow>
      files_count m = length (filter (\<lambda>f. records_of f \<noteq> []) (selected_files p fs))
      \<and> details m = concat (map records_of (selected_files p fs))
      \<and> total_cc m = sum_list (map cc (details m)))
   \<and> records_of (path, OpenFails) = []
   \<and> records_of (path, Utf8Fails None) = []
   \<and> (find_functions_in_text path content = [] \<longrightarrow>
        records_of (path, Utf8 content) = [] \<and> records_of (path, Utf8Fails (Some content)) = [])"
proof (intro conjI impI)
  assume g: "get_cc_metrics p fs = Inr m"
  have m: "files_count m = length (filter (\<lambda>f. records_of f \<noteq> []) (selected_files p fs))
      \<and> details m = concat (map records_of (selected_files p fs))
      \<and> total_cc m = sum_list (map cc (concat (map records_of (selected_files p fs))))"
  proof (cases fs)
    case Missing
    with g show ?thesis by (simp add: get_cc_metrics_def)
  next
    case (File rr)
    with g have "m = (if has_extension (src_file_extensions p) (src p)
               then account_file (handle_file (src p) rr) \<lparr>total_cc = 0, files_count = 0, details = []\<rparr>
               else \<lparr>total_cc = 0, files_count = 0, details = []\<rparr>)"
      by (simp add: get_cc_metrics_def Let_def)
    with File show ?thesis
      by (simp add: account_file_totals selected_files_def)
  next
    case (Directory entries)
    with g have "m = walk_files p entries \<lparr>total_cc = 0, files_count = 0, details = []\<rparr>"
      by (simp add: get_cc_metrics_def Let_def)
    with Directory show ?thesis
      by (simp add: walk_files_totals)
  qed
  from m show "files_count m = length (filter (\<lambda>f. records_of f \<noteq> []) (selected_files p fs))"
    by simp
  from m show "details m = concat (map records_of (selected_files p fs))" by simp
  from m show "total_cc m = sum_list (map cc (details m))" by simp
next
  show "records_of (path, OpenFails) = []" by (rule records_of_unreadable)
  show "records_of (path, Utf8Fails None) = []" by (rule records_of_unreadable)
next
  assume "find_functions_in_text path content = []"
  then show "records_of (path, Utf8 content) = []"
    and "records_of (path, Utf8Fails (Some content)) = []"
    by (simp_all add: records_of_readable)
qed

theorem files_count_counts_files_with_records_witness:
  "get_cc_metrics
     \<lparr>name = ''p'', description = ''d'', src = ''dir'', src_file_extensions = [''.c''],
      ignore = None\<rparr>
     (Directory [(''dir/a.c'', ''a.c'', Utf8 ''int f(){}''), (''dir/b.c'', ''b.c'', OpenFails)])
     = Inr \<lparr>total_cc = 1, files_count = 1,
            details = [\<lparr>filename = ''dir/a.c'', function_start = 1, function_end = 1,
                        cc = 1\<rparr>]\<rparr>
   \<and> length (filter (\<lambda>f. records_of f \<noteq> [])
        (selected_files
           \<lparr>name = ''p'', description = ''d'', src = ''dir'', src_file_extensions = [''.c''],
            ignore = None\<rparr>
           (Directory [(''dir/a.c'', ''a.c'', Utf8 ''int f(){}''),
                       (''dir/b.c'', ''b.c'', OpenFails)]))) = 1"
proof -
  let ?p = "\<lparr>name = ''p'', description = ''d'', src = ''dir'', src_file_extensions = [''.c''],
      ignore = None\<rparr>"
  let ?fs = "Directory [(''dir/a.c'', ''a.c'', Utf8 ''int f(){}''), (''dir/b.c'', ''b.c'', OpenFails)]"
  let ?m = "\<lparr>total_cc = 1, files_count = 1,
            details = [\<lparr>filename = ''dir/a.c'', function_start = 1, function_end = 1,
                        cc = 1\<rparr>]\<rparr>"
  have g: "get_cc_metrics ?p ?fs = Inr ?m" by code_simp
  note h = files_count_counts_files_with_records[of ?p ?fs ?m, THEN conjunct1, THEN mp, OF g,
      THEN conjunct1]
  then have "length (filter (\<lambda>f. records_of f \<noteq> []) (selected_files ?p ?fs)) = 1"
    by simp
  with g show ?thesis by (intro conjI)
qed

section \<open>Halstead metrics\<close>

lemma log2_nat_nonneg: "0 < n \<Longrightarrow> 0 \<le> log 2 (real n)"
  by (simp add: zero_le_log_cancel_iff)

lemma halstead_volume:
  "volume (compute_halstead operators operands)
      = (if card (set operators) + card (set operands) > 0 \<and> length operators + length operands > 0
         then real (length operators + length operands)
              * log 2 (real (card (set operators) + card (set operands)))
         else 0)"
  by (simp add: compute_halstead_def Let_def)

lemma halstead_difficulty:
  "difficulty (compute_halstead operators operands)
      = (if card (set operands) > 0
         then (real (card (set operators)) / 2) * (real (length operands) / real (card (set operands)))
         else 0)"
  by (simp add: compute_halstead_def Let_def)

lemma halstead_volume_nonneg: "0 \<le> volume (compute_halstead operators operands)"
proof (cases "card (set operators) + card (set operands) > 0 \<and> length operators + length operands > 0")
  case True
  then have "0 \<le> log 2 (real (card (set operators) + card (set operands)))"
    by (intro log2_nat_nonneg) simp
  then have "0 \<le> real (length operators + length operands)
              * log 2 (real (card (set operators) + card (set operands)))"
    by (intro mult_nonneg_nonneg) simp_all
  with True show ?thesis unfolding halstead_volume by simp
next
  case False
  then show ?thesis unfolding halstead_volume by simp
qed

lemma halstead_difficulty_nonneg: "0 \<le> difficulty (compute_halstead operators operands)"
  by (simp add: halstead_difficulty)

lemma halstead_effort:
  "effort (compute_halstead operators operands)
     = difficulty (compute_halstead operators operands)
       * volume (compute_halstead operators operands)"
  by (simp add: compute_halstead_def Let_def)

lemma halstead_effort_nonneg: "0 \<le> effort (compute_halstead operators operands)"
  using halstead_volume_nonneg[of operators operands]
    halstead_difficulty_nonneg[of operators operands]
  by (simp only: halstead_effort mult_nonneg_nonneg)

lemma halstead_time:
  "time (compute_halstead operators operands) = effort (compute_halstead operators operands) / 18"
proof -
  have "time (compute_halstead operators operands)
      = (if effort (compute_halstead operators operands) > 0
         then effort (compute_halstead operators operands) / 18 else 0)"
    by (simp add: compute_halstead_def Let_def)
  with halstead_effort_nonneg[of operators operands] show ?thesis
    by (cases "effort (compute_halstead operators operands) > 0") simp_all
qed

lemma halstead_bugs:
  "bugs (compute_halstead operators operands) = volume (compute_halstead operators operands) / 3000"
proof -
  have "bugs (compute_halstead operators operands)
      = (if volume (compute_halstead operators operands) > 0
         then volume (compute_halstead operators operands) / 3000 else 0)"
    by (simp add: compute_halstead_def Let_def)
  with halstead_volume_nonneg[of operators operands] show ?thesis
    by (cases "volume (compute_halstead operators operands) > 0") simp_all
qed

lemma halstead_counts:
  "n1 (compute_halstead operators operands) = card (set operators)"
  "n2 (compute_halstead operators operands) = card (set operands)"
  "N1 (compute_halstead operators operands) = length operators"
  "N2 (compute_halstead operators operands) = length operands"
  "vocabulary (compute_halstead operators operands) = card (set operators) + card (set operands)"
  "length_h (compute_halstead operators operands) = length operators + length operands"
  by (simp_all add: compute_halstead_def Let_def)


text \<open>
  Claim C5. For all operator and operand sequences: the volume is
  \<open>length * log2(vocabulary)\<close> and is 0 when the vocabulary or the length is 0; the
  difficulty is \<open>(n1 / 2) * (N2 / n2)\<close> and is 0 when \<open>n2 = 0\<close>; the effort is their
  product; \<open>time = effort / 18\<close> and \<open>bugs = volume / 3000\<close>, both 0 when the
  numerator is 0. The two guards \<open>if effort > 0\<close> and \<open>if volume > 0\<close> of the code never
  change the value, since neither quantity is negative.
\<close>

theorem halstead_formulas:
  "let h = compute_halstead operators operands in
     n1 h = card (set operators) \<and> n2 h = card (set operands)
     \<and> N1 h = length operators \<and> N2 h = length operands
     \<and> vocabulary h = n1 h + n2 h \<and> length_h h = N1 h + N2 h
     \<and> (vocabulary h = 0 \<or> length_h h = 0 \<longrightarrow> volume h = 0)
     \<and> (vocabulary h > 0 \<and> length_h h > 0 \<longrightarrow>
          volume h = real (length_h h) * log 2 (real (vocabulary h)))
     \<and> (n2 h = 0 \<longrightarrow> difficulty h = 0)
     \<and> (n2 h > 0 \<longrightarrow> difficulty h = (real (n1 h) / 2) * (real (N2 h) / real (n2 h)))
     \<and> effort h = difficulty h * volume h
     \<and> time h = effort h / 18
     \<and> bugs h = volume h / 3000
     \<and> (effort h = 0 \<longrightarrow> time h = 0)
     \<and> (volume h = 0 \<longrightarrow> bugs h = 0)"
proof -
  let ?h = "compute_halstead operators operands"
  have v0: "vocabulary ?h = 0 \<or> length_h ?h = 0 \<longrightarrow> volume ?h = 0"
    by (auto simp: halstead_counts halstead_volume)
  have v1: "vocabulary ?h > 0 \<and> length_h ?h > 0 \<longrightarrow>
          volume ?h = real (length_h ?h) * log 2 (real (vocabulary ?h))"
    by (simp add: halstead_counts halstead_volume)
  have d0: "n2 ?h = 0 \<longrightarrow> difficulty ?h = 0"
    by (simp add: halstead_counts halstead_difficulty)
  have d1: "n2 ?h > 0 \<longrightarrow> difficulty ?h = (real (n1 ?h) / 2) * (real (N2 ?h) / real (n2 ?h))"
    by (simp add: halstead_counts halstead_difficulty)
  have t0: "effort ?h = 0 \<longrightarrow> time ?h = 0" by (simp add: halstead_time)
  have b0: "volume ?h = 0 \<longrightarrow> bugs ?h = 0" by (simp add: halstead_bugs)
  have vc: "vocabulary ?h = n1 ?h + n2 ?h" and ln: "length_h ?h = N1 ?h + N2 ?h"
    by (simp_all add: halstead_counts)
  show ?thesis
    unfolding Let_def
    by (intro conjI halstead_counts(1,2,3,4) vc ln v0 v1 d0 d1 halstead_effort halstead_time
        halstead_bugs t0 b0)
qed

theorem halstead_formulas_witness:
  "volume (compute_halstead [''+'', '';'', ''+''] [''a'', ''b'']) = 10
   \<and> difficulty (compute_halstead [''+'', '';'', ''+''] [''a'', ''b'']) = 1
   \<and> effort (compute_halstead [''+'', '';'', ''+''] [''a'', ''b'']) = 10
   \<and> time (compute_halstead [''+'', '';'', ''+''] [''a'', ''b'']) = 10 / 18
   \<and> bugs (compute_halstead [''+'', '';'', ''+''] [''a'', ''b'']) = 10 / 3000"
proof -
  let ?h = "compute_halstead [''+'', '';'', ''+''] [''a'', ''b'']"
  have l: "log 2 (4::real) = 2"
  proof -
    have "(4::real) = 2 powr 2" by simp
    then show ?thesis by (simp only: log_powr_cancel)
  qed
  have c: "card (set [''+'', '';'', ''+'']) = 2" "card (set [''a'', ''b'']) = 2"
    by code_simp+
  note h = halstead_formulas[of "[''+'', '';'', ''+'']" "[''a'', ''b'']", unfolded Let_def]
  have cnt: "n1 ?h = 2" "n2 ?h = 2" "N1 ?h = 3" "N2 ?h = 2"
    using h c by simp_all
  have voc: "vocabulary ?h = 4" "length_h ?h = 5" using h cnt by simp_all
  have vol: "volume ?h = 10" using h voc l by simp
  have dif: "difficulty ?h = 1" using h cnt by simp
  have eff: "effort ?h = 10" using h vol dif by simp
  have tim: "time ?h = 10 / 18" using h eff by simp
  have bug: "bugs ?h = 10 / 3000" using h vol by simp
  from vol dif eff tim bug show ?thesis by (intro conjI)
qed


text \<open>
  Claim C8 says that a decimal literal is one operand. The pattern \<open>NUMBER\<close> is written
  for that, but the operator \<open>\.\<close> is in \<open>OPERATORS\<close>, and every operator is replaced
  by a blank before the operands are matched: \<open>3.14\<close> comes out as the operator \<open>.\<close>
  and the two operands \<open>3\<close> and \<open>14\<close>.
\<close>

theorem decimal_literal_is_split:
  "tokenize_source ''x = 3.14;'' = ([''.'', ''='', '';''], [''x'', ''3'', ''14''])"
  by code_simp

section \<open>Strategy A: assignments\<close>








section \<open>Strategy A: the fallback tiers\<close>

lemma analyze_file_exhausted: "exhausted f \<Longrightarrow> analyze_file f = (0, [])"
  by (auto simp: exhausted_def analyze_file_def split: attempt.splits prod.splits)

lemma walk_dfc_totals:
  "walk_dfc extensions ign entries m =
     \<lparr>total_dfc = total_dfc m
         + sum_list (map (\<lambda>(nm, f). fst (analyze_file f)) (dfc_selected extensions ign entries)),
      total_files = total_files m + length (dfc_selected extensions ign entries),
      total_blocks = total_blocks m
         + sum_list (map (\<lambda>(nm, f). length (snd (analyze_file f)))
                      (dfc_selected extensions ign entries))\<rparr>"
proof (induction entries arbitrary: m)
  case Nil
  show ?case by (simp add: dfc_selected_def)
next
  case (Cons e entries)
  obtain nm f where e: "e = (nm, f)" by (cases e)
  show ?case
    by (simp add: e Cons.IH dfc_selected_def split: prod.splits)
qed


text \<open>
  Claim C9. When all tiers are exhausted, \<open>analyze_file\<close> returns \<open>(0, [])\<close>; it is a
  total function, every exception of an attempt being a value that a tier turns into
  the next tier. \<open>analyze_directory\<close> counts every file that passes the filters,
  whatever \<open>analyze_file\<close> returns for it: adding an exhausted file to a directory
  adds one to the files and nothing to the score and the blocks.
\<close>

theorem exhausted_file_is_zero_and_counted:
  "(exhausted f \<longrightarrow> analyze_file f = (0, []))
   \<and> analyze_directory (Some entries) extensions ign =
       Inr \<lparr>total_dfc =
              sum_list (map (\<lambda>(nm, f). fst (analyze_file f)) (dfc_selected extensions ign entries)),
            total_files = length (dfc_selected extensions ign entries),
            total_blocks =
              sum_list (map (\<lambda>(nm, f). length (snd (analyze_file f)))
                         (dfc_selected extensions ign entries))\<rparr>
   \<and> (exhausted f \<and> has_extension extensions nm \<and> \<not> ignored ign nm \<longrightarrow>
        (\<exists>m m'. analyze_directory (Some (before @ (nm, f) # after)) extensions ign = Inr m
               \<and> analyze_directory (Some (before @ after)) extensions ign = Inr m'
               \<and> total_files m = total_files m' + 1
               \<and> total_dfc m = total_dfc m'
               \<and> total_blocks m = total_blocks m'))"
proof (intro conjI impI)
  assume "exhausted f"
  then show "analyze_file f = (0, [])" by (rule analyze_file_exhausted)
next
  show "analyze_directory (Some entries) extensions ign =
       Inr \<lparr>total_dfc =
              sum_list (map (\<lambda>(nm, f). fst (analyze_file f)) (dfc_selected extensions ign entries)),
            total_files = length (dfc_selected extensions ign entries),
            total_blocks =
              sum_list (map (\<lambda>(nm, f). length (snd (analyze_file f)))
                         (dfc_selected extensions ign entries))\<rparr>"
    by (simp add: analyze_directory_def walk_dfc_totals)
next
  assume a: "exhausted f \<and> has_extension extensions nm \<and> \<not> ignored ign nm"
  then have z: "analyze_file f = (0, [])" by (simp add: analyze_file_exhausted)
  have sel: "dfc_selected extensions ign (before @ (nm, f) # after)
      = dfc_selected extensions ign before @ (nm, f) # dfc_selected extensions ign after"
    using a by (simp add: dfc_selected_def)
  have sel': "dfc_selected extensions ign (before @ after)
      = dfc_selected extensions ign before @ dfc_selected extensions ign after"
    by (simp add: dfc_selected_def)
  show "\<exists>m m'. analyze_directory (Some (before @ (nm, f) # after)) extensions ign = Inr m
               \<and> analyze_directory (Some (before @ after)) extensions ign = Inr m'
               \<and> total_files m = total_files m' + 1
               \<and> total_dfc m = total_dfc m'
               \<and> total_blocks m = total_blocks m'"
    by (simp add: analyze_directory_def walk_dfc_totals sel sel' z)
qed

theorem exhausted_file_is_zero_and_counted_witness:
  "exhausted \<lparr>raw_parse = Raises, cpp_parse = Returns (Node []), cpp_run = Returns (1, []),
              cpp_output_parse = Raises\<rparr>
   \<and> has_extension [''.c''] ''a.c'' \<and> \<not> ignored None ''a.c''
   \<and> analyze_file \<lparr>raw_parse = Raises, cpp_parse = Returns (Node []), cpp_run = Returns (1, []),
              cpp_output_parse = Raises\<rparr> = (0, [])
   \<and> analyze_directory
        (Some [(''a.c'', \<lparr>raw_parse = Raises, cpp_parse = Returns (Node []),
                           cpp_run = Returns (1, []), cpp_output_parse = Raises\<rparr>)])
        [''.c''] None
       = Inr \<lparr>total_dfc = 0, total_files = 1, total_blocks = 0\<rparr>"
proof -
  let ?f = "\<lparr>raw_parse = Raises, cpp_parse = Returns (Node []), cpp_run = Returns (1, []),
              cpp_output_parse = Raises\<rparr>"
  have c: "compute_data_flow_complexity (Node []) = (0, [])"
    by (simp add: compute_data_flow_complexity_def new_analyzer_def add_block_def Let_def)
  have e: "exhausted ?f" by (simp add: exhausted_def tier_def c)
  have x: "has_extension [''.c''] ''a.c''" by (simp add: has_extension_def suffix_def)
  have i: "\<not> ignored None ''a.c''" by (simp add: ignored_def)
  note h = exhausted_file_is_zero_and_counted[of ?f "[(''a.c'', ?f)]" "[''.c'']" None "''a.c''"]
  from h e have z: "analyze_file ?f = (0, [])" by blast
  have s: "dfc_selected [''.c''] None [(''a.c'', ?f)] = [(''a.c'', ?f)]"
    using x i by (simp add: dfc_selected_def)
  from h have "analyze_directory (Some [(''a.c'', ?f)]) [''.c''] None
       = Inr \<lparr>total_dfc =
              sum_list (map (\<lambda>(nm, f). fst (analyze_file f)) (dfc_selected [''.c''] None [(''a.c'', ?f)])),
            total_files = length (dfc_selected [''.c''] None [(''a.c'', ?f)]),
            total_blocks =
              sum_list (map (\<lambda>(nm, f). length (snd (analyze_file f)))
                         (dfc_selected [''.c''] None [(''a.c'', ?f)]))\<rparr>"
    by blast
  then have d: "analyze_directory (Some [(''a.c'', ?f)]) [''.c''] None
       = Inr \<lparr>total_dfc = 0, total_files = 1, total_blocks = 0\<rparr>"
    by (simp add: s z)
  from e x i z d show ?thesis by (intro conjI)
qed

section \<open>Strategy B\<close>

text \<open>
  Claim C7. Strategy B computes, for a function with parameter count \<open>p\<close> and cyclomatic
  complexity \<open>c\<close>, \<open>control_flow = max(0, c - 1)\<close> and
  \<open>dfc = p * control_flow + control_flow\<close>; with \<open>p = 3\<close> and \<open>c = 4\<close> the result is 12.
\<close>

theorem estimate_dfc_formula:
  "control_flow \<lparr>parameter_count = p, cyclomatic_complexity = c\<rparr> = max 0 (c - 1)
   \<and> estimate_dfc_from_function \<lparr>parameter_count = p, cyclomatic_complexity = c\<rparr>
       = p * max 0 (c - 1) + max 0 (c - 1)
   \<and> estimate_dfc_from_function \<lparr>parameter_count = 3, cyclomatic_complexity = 4\<rparr> = 12"
  by (simp add: control_flow_def estimate_dfc_from_function_def Let_def)

end
